theory Spec2Isabelle
  imports Complex_Main "HOL-Library.Log_Nat"
begin

section \<open>Python \<open>decimal\<close> arithmetic under the default context\<close>

text \<open>
  The calculator service converts every request field with \<open>Decimal(str(x))\<close> and then
  computes with Python's \<open>decimal.Decimal\<close> under the default context: precision 28,
  rounding \<open>ROUND_HALF_EVEN\<close>, \<open>Emax = 999999\<close>, \<open>Emin = -999999\<close>, with the traps
  \<open>InvalidOperation\<close>, \<open>DivisionByZero\<close> and \<open>Overflow\<close> enabled.

  A finite decimal is a signed integer coefficient and an exponent; its value is
  \<open>coef * 10 ^ expo\<close>. The sign of a zero is not kept (Python compares \<open>-0\<close> and \<open>0\<close>
  equal, and the service only compares, adds, multiplies, divides and quantizes).
  NaN and the infinities are not represented: \<open>str\<close> of a finite float never yields them.
\<close>

datatype decimal = Dec (coef: int) (expo: int)

datatype error = DivisionByZero | InvalidOperation | Overflow | PowerNotModelled

definition err_bind :: "error + 'a \<Rightarrow> ('a \<Rightarrow> error + 'b) \<Rightarrow> error + 'b" where
  "err_bind m f = (case m of Inl e \<Rightarrow> Inl e | Inr x \<Rightarrow> f x)"

definition prec :: int where "prec = 28"
definition Emax :: int where "Emax = 999999"
definition Emin :: int where "Emin = - 999999"
definition Etiny :: int where "Etiny = Emin - prec + 1"
definition Etop :: int where "Etop = Emax - prec + 1"

text \<open>The value of a decimal, as a rational number.\<close>

definition val :: "decimal \<Rightarrow> rat" where
  "val d = (if 0 \<le> expo d then of_int (coef d) * 10 ^ nat (expo d)
            else of_int (coef d) / 10 ^ nat (- expo d))"

text \<open>\<open>len(self._int)\<close>: the number of decimal digits of a coefficient (1 for 0).\<close>

function ndigits :: "int \<Rightarrow> int" where
  "ndigits n = (if n < 10 then 1 else 1 + ndigits (n div 10))"
  by pat_completeness auto
termination
  by (relation "measure nat") auto

declare ndigits.simps [simp del]

text \<open>
  Dropping the last \<open>k\<close> digits of a coefficient, \<open>ROUND_HALF_EVEN\<close> (the context's
  rounding) and \<open>ROUND_HALF_UP\<close> (the rounding passed to \<open>quantize\<close>).
\<close>

definition round_half_even :: "int \<Rightarrow> nat \<Rightarrow> int" where
  "round_half_even m k =
     (let p = 10 ^ k; q = m div p; r = m mod p
      in if p < 2 * r \<or> (2 * r = p \<and> odd q) then q + 1 else q)"

definition round_half_up :: "int \<Rightarrow> nat \<Rightarrow> int" where
  "round_half_up m k =
     (let p = 10 ^ k; q = m div p; r = m mod p
      in if p \<le> 2 * r then q + 1 else q)"

text \<open>
  \<open>Decimal._fix\<close>: round a result to the context. A zero keeps its exponent, clamped to
  \<open>[Etiny, Emax]\<close>. A coefficient with more than \<open>prec\<close> digits (or an exponent below
  \<open>Etiny\<close>) is rounded half-even; a rounded coefficient of \<open>prec + 1\<close> digits loses its
  last digit (a zero). A result above \<open>Emax\<close> raises \<open>Overflow\<close>.
\<close>

definition dec_fix :: "decimal \<Rightarrow> error + decimal" where
  "dec_fix d =
     (let m = coef d; e = expo d in
      if m = 0 then Inr (Dec 0 (min (max e Etiny) Emax))
      else
        let exp_min0 = ndigits \<bar>m\<bar> + e - prec in
        if Etop < exp_min0 then Inl Overflow
        else
          let exp_min = max exp_min0 Etiny in
          if e < exp_min then
            let c = round_half_even \<bar>m\<bar> (nat (exp_min - e));
                long = (prec < ndigits c);
                c' = (if long then c div 10 else c);
                e' = (if long then exp_min + 1 else exp_min)
            in if Etop < e' then Inl Overflow else Inr (Dec (sgn m * c') e')
          else Inr d)"

text \<open>
  \<open>__add__\<close>, \<open>__sub__\<close>, \<open>__mul__\<close>: the exact result, then \<open>_fix\<close>. (The library
  shortens a far smaller operand before adding; the rounded result is the same.)
\<close>

definition dec_add :: "decimal \<Rightarrow> decimal \<Rightarrow> error + decimal" where
  "dec_add a b =
     (let e = min (expo a) (expo b)
      in dec_fix (Dec (coef a * 10 ^ nat (expo a - e) + coef b * 10 ^ nat (expo b - e)) e))"

definition dec_neg :: "decimal \<Rightarrow> decimal" where
  "dec_neg a = Dec (- coef a) (expo a)"

definition dec_sub :: "decimal \<Rightarrow> decimal \<Rightarrow> error + decimal" where
  "dec_sub a b = dec_add a (dec_neg b)"

definition dec_mul :: "decimal \<Rightarrow> decimal \<Rightarrow> error + decimal" where
  "dec_mul a b = dec_fix (Dec (coef a * coef b) (expo a + expo b))"

text \<open>
  \<open>__truediv__\<close>: the quotient is computed to \<open>prec + 1\<close> digits; an inexact quotient
  whose last digit is 0 or 5 gets a sticky 1, an exact one drops trailing zeros down
  to the ideal exponent \<open>expo a - expo b\<close>; then \<open>_fix\<close>.
\<close>

function strip_zeros :: "int \<Rightarrow> int \<Rightarrow> int \<Rightarrow> int \<times> int" where
  "strip_zeros q ex ideal =
     (if ex < ideal \<and> q mod 10 = 0 then strip_zeros (q div 10) (ex + 1) ideal else (q, ex))"
  by pat_completeness auto
termination
  by (relation "measure (\<lambda>(q, ex, ideal). nat (ideal - ex))") auto

declare strip_zeros.simps [simp del]

definition dec_div :: "decimal \<Rightarrow> decimal \<Rightarrow> error + decimal" where
  "dec_div a b =
     (if coef b = 0 then (if coef a = 0 then Inl InvalidOperation else Inl DivisionByZero)
      else if coef a = 0 then dec_fix (Dec 0 (expo a - expo b))
      else
        let s = sgn (coef a) * sgn (coef b);
            shift = ndigits \<bar>coef b\<bar> - ndigits \<bar>coef a\<bar> + prec + 1;
            ex = expo a - expo b - shift;
            num = (if 0 \<le> shift then \<bar>coef a\<bar> * 10 ^ nat shift else \<bar>coef a\<bar>);
            den = (if 0 \<le> shift then \<bar>coef b\<bar> else \<bar>coef b\<bar> * 10 ^ nat (- shift));
            q = num div den;
            r = num mod den
        in if r \<noteq> 0 then dec_fix (Dec (s * (if q mod 5 = 0 then q + 1 else q)) ex)
           else (let qe = strip_zeros q ex (expo a - expo b)
                 in dec_fix (Dec (s * fst qe) (snd qe))))"

text \<open>
  \<open>quantize(Decimal('0.01'), rounding=ROUND_HALF_UP)\<close>, for a target exponent \<open>ex\<close>: the
  value rounded half-up to a multiple of \<open>10 ^ ex\<close>; \<open>InvalidOperation\<close> when the
  result would need more than \<open>prec\<close> digits.
\<close>

definition adjusted :: "decimal \<Rightarrow> int" where
  "adjusted d = ndigits \<bar>coef d\<bar> + expo d - 1"

definition rescale_half_up :: "decimal \<Rightarrow> int \<Rightarrow> decimal" where
  "rescale_half_up d ex =
     (if ex \<le> expo d then Dec (coef d * 10 ^ nat (expo d - ex)) ex
      else Dec (sgn (coef d) * round_half_up \<bar>coef d\<bar> (nat (ex - expo d))) ex)"

definition quantize :: "decimal \<Rightarrow> int \<Rightarrow> error + decimal" where
  "quantize d ex =
     (if \<not> (Etiny \<le> ex \<and> ex \<le> Emax) then Inl InvalidOperation
      else if coef d = 0 then dec_fix (Dec 0 ex)
      else if Emax < adjusted d then Inl InvalidOperation
      else if prec < adjusted d - ex + 1 then Inl InvalidOperation
      else
        let ans = rescale_half_up d ex in
        if Emax < adjusted ans then Inl InvalidOperation
        else if prec < ndigits \<bar>coef ans\<bar> then Inl InvalidOperation
        else dec_fix ans)"

definition quantize2 :: "decimal \<Rightarrow> error + decimal" where
  "quantize2 d = quantize d (- 2)"

section \<open>Python floats\<close>

text \<open>
  A Python float: a finite one is given by its exact value, and there are the two
  infinities and NaN (the sign of a zero is not kept). The request holds its three
  amounts as floats, and the response is built from \<open>float(q)\<close> of each quantized
  decimal \<open>q\<close>.
\<close>

datatype pyfloat = Float rat | PosInf | NegInf | NaN

text \<open>
  The comparisons \<open>x <= c\<close>, \<open>x < c\<close> and \<open>x > c\<close> of a float with a finite constant.
  Every comparison with NaN is false.
\<close>

fun float_le :: "pyfloat \<Rightarrow> rat \<Rightarrow> bool" where
  "float_le (Float v) c = (v \<le> c)"
| "float_le NegInf c = True"
| "float_le PosInf c = False"
| "float_le NaN c = False"

fun float_lt :: "pyfloat \<Rightarrow> rat \<Rightarrow> bool" where
  "float_lt (Float v) c = (v < c)"
| "float_lt NegInf c = True"
| "float_lt PosInf c = False"
| "float_lt NaN c = False"

fun float_gt :: "pyfloat \<Rightarrow> rat \<Rightarrow> bool" where
  "float_gt (Float v) c = (c < v)"
| "float_gt PosInf c = True"
| "float_gt NegInf c = False"
| "float_gt NaN c = False"

text \<open>
  \<open>float(d)\<close> of a decimal: the binary64 number nearest to the value, a tie going to
  the even significand. \<open>bin_exponent x\<close> is the \<open>e\<close> with \<open>2 ^ e \<le> \<bar>x\<bar> < 2 ^ (e + 1)\<close>
  (found from the bit lengths of numerator and denominator). A significand has 53
  bits, so the numbers near \<open>x\<close> are \<open>2 ^ (e - 52)\<close> apart, and \<open>2 ^ - 1074\<close> apart
  below the normal range; a rounded magnitude of \<open>2 ^ 1024\<close> or more is an infinity.
\<close>

definition bin_exponent :: "rat \<Rightarrow> int" where
  "bin_exponent x =
     (let pq = quotient_of \<bar>x\<bar>; b = bitlen (fst pq) - bitlen (snd pq)
      in if 2 powi b \<le> \<bar>x\<bar> then b else b - 1)"

definition round_nearest_even :: "rat \<Rightarrow> int" where
  "round_nearest_even y =
     (let f = \<lfloor>y\<rfloor>; r = y - of_int f
      in if r < 1 / 2 then f else if 1 / 2 < r then f + 1 else if even f then f else f + 1)"

definition binary64 :: "rat \<Rightarrow> pyfloat" where
  "binary64 x =
     (if x = 0 then Float 0
      else
        let u = 2 powi (max (bin_exponent x) (- 1022) - 52);
            y = of_int (round_nearest_even (\<bar>x\<bar> / u)) * u
        in if 2 ^ 1024 \<le> y then (if 0 < x then PosInf else NegInf) else Float (sgn x * y))"

definition to_float :: "decimal \<Rightarrow> pyfloat" where
  "to_float d = binary64 (val d)"

section \<open>The request and response models\<close>

text \<open>
  \<open>CalculatorRequest\<close> (\<open>app/models/calculator.py\<close>). The three amounts are Python
  floats; a field of the record holds \<open>Decimal(str(x))\<close> of the float \<open>x\<close>, the exact
  decimal that \<open>str\<close> prints (at most 17 significant digits). The constants the
  float is compared with (0, 20, 50000, 10000000) are floats themselves, so the printed
  decimal compares with them as the float does.
\<close>

record calculator_request =
  principal :: decimal
  monthly_payment :: decimal
  annual_rate :: decimal
  years :: int
  compound_frequency :: string

text \<open>
  The same request as \<open>validate_request\<close> reads it: the three amounts as the floats
  they are. Pydantic checks the field constraints when a request is constructed, not
  when a field is assigned or when \<open>model_construct\<close> builds the request, so a request
  can hold any float, NaN included.
\<close>

record raw_request =
  raw_principal :: pyfloat
  raw_monthly_payment :: pyfloat
  raw_annual_rate :: pyfloat
  raw_years :: int
  raw_compound_frequency :: string

text \<open>
  \<open>YearlyBreakdown\<close> and \<open>CalculatorResponse\<close>. Every amount is the quantized decimal
  that the service hands to \<open>float()\<close>.
\<close>

record yearly_breakdown_entry =
  year :: int
  start_amount :: decimal
  contributions :: decimal
  interest :: decimal
  end_amount :: decimal
  growth_rate :: decimal

record calculator_response =
  final_amount :: decimal
  total_contributions :: decimal
  total_interest :: decimal
  annual_return :: decimal
  yearly_breakdown :: "yearly_breakdown_entry list"
  calculation_time :: string

text \<open>
  \<open>YearlyBreakdown\<close> and \<open>CalculatorResponse\<close> as the service returns them: every
  amount is \<open>float(q)\<close> of the quantized decimal \<open>q\<close>.
\<close>

record yearly_breakdown_floats =
  year_f :: int
  start_amount_f :: pyfloat
  contributions_f :: pyfloat
  interest_f :: pyfloat
  end_amount_f :: pyfloat
  growth_rate_f :: pyfloat

record float_response =
  final_amount_f :: pyfloat
  total_contributions_f :: pyfloat
  total_interest_f :: pyfloat
  annual_return_f :: pyfloat
  yearly_breakdown_f :: "yearly_breakdown_floats list"
  calculation_time_f :: string

definition returned_entry :: "yearly_breakdown_entry \<Rightarrow> yearly_breakdown_floats" where
  "returned_entry e =
     \<lparr>year_f = year e, start_amount_f = to_float (start_amount e),
      contributions_f = to_float (contributions e), interest_f = to_float (interest e),
      end_amount_f = to_float (end_amount e), growth_rate_f = to_float (growth_rate e)\<rparr>"

definition returned_response :: "calculator_response \<Rightarrow> float_response" where
  "returned_response r =
     \<lparr>final_amount_f = to_float (final_amount r),
      total_contributions_f = to_float (total_contributions r),
      total_interest_f = to_float (total_interest r),
      annual_return_f = to_float (annual_return r),
      yearly_breakdown_f = map returned_entry (yearly_breakdown r),
      calculation_time_f = calculation_time r\<rparr>"

text \<open>
  The field constraints of \<open>CalculatorRequest\<close> (\<open>gt\<close>, \<open>ge\<close>, \<open>le\<close>) and its
  \<open>compound_frequency\<close> validator: a request that breaks one of them cannot be
  constructed (pydantic raises \<open>ValidationError\<close>).
\<close>

definition allowed_frequencies :: "string list" where
  "allowed_frequencies = [''monthly'', ''quarterly'', ''yearly'']"

definition request_model_accepts :: "calculator_request \<Rightarrow> bool" where
  "request_model_accepts r =
     (0 < val (principal r) \<and> val (principal r) \<le> 10000000 \<and>
      0 \<le> val (monthly_payment r) \<and> val (monthly_payment r) \<le> 50000 \<and>
      0 < val (annual_rate r) \<and> val (annual_rate r) \<le> 20 \<and>
      0 < years r \<and> years r \<le> 50 \<and>
      compound_frequency r \<in> set allowed_frequencies)"

section \<open>\<open>CalculatorService.validate_request\<close>\<close>

text \<open>
  The error list of \<open>validate_request\<close>. Each message of the source is one constructor,
  in the order the source appends them:
  "principal must be greater than 0", "principal must not exceed 10,000,000",
  "rate must be greater than 0", "rate must not exceed 20 percent",
  "years must be greater than 0", "years must not exceed 50",
  "monthly payment must not be negative", "monthly payment must not exceed 50,000".
\<close>

datatype validation_message =
    PrincipalNotPositive | PrincipalTooLarge
  | RateNotPositive | RateTooLarge
  | YearsNotPositive | YearsTooLarge
  | PaymentNegative | PaymentTooLarge

definition validate_request :: "raw_request \<Rightarrow> validation_message list" where
  "validate_request request =
     (if float_le (raw_principal request) 0 then [PrincipalNotPositive] else []) @
     (if float_gt (raw_principal request) 10000000 then [PrincipalTooLarge] else []) @
     (if float_le (raw_annual_rate request) 0 then [RateNotPositive] else []) @
     (if float_gt (raw_annual_rate request) 20 then [RateTooLarge] else []) @
     (if raw_years request \<le> 0 then [YearsNotPositive] else []) @
     (if 50 < raw_years request then [YearsTooLarge] else []) @
     (if float_lt (raw_monthly_payment request) 0 then [PaymentNegative] else []) @
     (if float_gt (raw_monthly_payment request) 50000 then [PaymentTooLarge] else [])"


section \<open>\<open>CalculatorService.calculate_compound_interest\<close>\<close>

text \<open>
  The local variables that the two nested loops update.
\<close>

record calc_state =
  current_amount :: decimal
  total_contributions_acc :: decimal
  year_contributions :: decimal
  year_interest :: decimal
  breakdown_acc :: "yearly_breakdown_entry list"

text \<open>
  The body of \<open>for period in range(periods_per_year)\<close>. Its first statement: with
  monthly compounding and a positive payment, the payment is added to the current
  amount, to the year's contributions and to the total contributions.
\<close>

definition monthly_contribution :: "string \<Rightarrow> decimal \<Rightarrow> calc_state \<Rightarrow> error + calc_state" where
  "monthly_contribution freq mp s =
     (if freq = ''monthly'' \<and> 0 < coef mp then
        err_bind (dec_add (current_amount s) mp) (\<lambda>c.
        err_bind (dec_add (year_contributions s) mp) (\<lambda>yc.
        err_bind (dec_add (total_contributions_acc s) mp) (\<lambda>tc.
          Inr (s\<lparr>current_amount := c, year_contributions := yc,
                   total_contributions_acc := tc\<rparr>))))
      else Inr s)"

text \<open>
  Then the period's interest is computed on the current amount and added to it and to
  the year's interest.
\<close>

definition period_body :: "string \<Rightarrow> decimal \<Rightarrow> decimal \<Rightarrow> calc_state \<Rightarrow> error + calc_state" where
  "period_body freq mp rate_per_period s =
     err_bind (monthly_contribution freq mp s) (\<lambda>s1.
     err_bind (dec_mul (current_amount s1) rate_per_period) (\<lambda>period_interest.
     err_bind (dec_add (current_amount s1) period_interest) (\<lambda>c.
     err_bind (dec_add (year_interest s1) period_interest) (\<lambda>yi.
       Inr (s1\<lparr>current_amount := c, year_interest := yi\<rparr>)))))"

fun run_periods :: "nat \<Rightarrow> string \<Rightarrow> decimal \<Rightarrow> decimal \<Rightarrow> calc_state \<Rightarrow> error + calc_state" where
  "run_periods 0 freq mp rate_per_period s = Inr s"
| "run_periods (Suc n) freq mp rate_per_period s =
     err_bind (period_body freq mp rate_per_period s) (run_periods n freq mp rate_per_period)"

text \<open>
  The year-end contribution of quarterly and yearly compounding: \<open>monthly_payment * 12\<close>,
  added once after the year's periods.
\<close>

definition year_end_contribution :: "string \<Rightarrow> decimal \<Rightarrow> calc_state \<Rightarrow> error + calc_state" where
  "year_end_contribution freq mp s =
     (if freq \<in> set [''quarterly'', ''yearly''] \<and> 0 < coef mp then
        err_bind (dec_mul mp (Dec 12 0)) (\<lambda>annual_contribution.
        err_bind (dec_add (current_amount s) annual_contribution) (\<lambda>c.
        err_bind (dec_add (year_contributions s) annual_contribution) (\<lambda>yc.
        err_bind (dec_add (total_contributions_acc s) annual_contribution) (\<lambda>tc.
          Inr (s\<lparr>current_amount := c, year_contributions := yc,
                   total_contributions_acc := tc\<rparr>)))))
      else Inr s)"

definition growth_rate_of :: "decimal \<Rightarrow> decimal \<Rightarrow> error + decimal" where
  "growth_rate_of year_start_amount current =
     (if 0 < coef year_start_amount then
        err_bind (dec_sub current year_start_amount) (\<lambda>d.
        err_bind (dec_div d year_start_amount) (\<lambda>q.
          dec_mul q (Dec 100 0)))
      else Inr (Dec 0 0))"

definition breakdown_entry ::
    "int \<Rightarrow> decimal \<Rightarrow> decimal \<Rightarrow> decimal \<Rightarrow> decimal \<Rightarrow> decimal \<Rightarrow> error + yearly_breakdown_entry" where
  "breakdown_entry y year_start_amount yc yi current growth =
     err_bind (quantize2 year_start_amount) (\<lambda>sa.
     err_bind (quantize2 yc) (\<lambda>co.
     err_bind (quantize2 yi) (\<lambda>it.
     err_bind (quantize2 current) (\<lambda>ea.
     err_bind (quantize2 growth) (\<lambda>gr.
       Inr \<lparr>year = y, start_amount = sa, contributions = co, interest = it,
            end_amount = ea, growth_rate = gr\<rparr>)))))"

text \<open>The body of \<open>for year in range(1, years + 1)\<close>.\<close>

definition year_body ::
    "string \<Rightarrow> decimal \<Rightarrow> decimal \<Rightarrow> nat \<Rightarrow> int \<Rightarrow> calc_state \<Rightarrow> error + calc_state" where
  "year_body freq mp rate_per_period periods_per_year y s =
     (let year_start_amount = current_amount s;
          s0 = s\<lparr>year_contributions := Dec 0 0, year_interest := Dec 0 0\<rparr>
      in err_bind (run_periods periods_per_year freq mp rate_per_period s0) (\<lambda>s1.
         err_bind (year_end_contribution freq mp s1) (\<lambda>s2.
         err_bind (growth_rate_of year_start_amount (current_amount s2)) (\<lambda>growth.
         err_bind (breakdown_entry y year_start_amount (year_contributions s2)
                     (year_interest s2) (current_amount s2) growth) (\<lambda>entry.
           Inr (s2\<lparr>breakdown_acc := breakdown_acc s2 @ [entry]\<rparr>))))))"

fun run_years ::
    "string \<Rightarrow> decimal \<Rightarrow> decimal \<Rightarrow> nat \<Rightarrow> int list \<Rightarrow> calc_state \<Rightarrow> error + calc_state" where
  "run_years freq mp rate_per_period periods_per_year [] s = Inr s"
| "run_years freq mp rate_per_period periods_per_year (y # ys) s =
     err_bind (year_body freq mp rate_per_period periods_per_year y s)
       (run_years freq mp rate_per_period periods_per_year ys)"

text \<open>
  The compounding parameters chosen from \<open>compound_frequency\<close>: every string other
  than \<open>monthly\<close> and \<open>quarterly\<close> takes the \<open>else\<close> branch.
\<close>

definition periods_per_year :: "string \<Rightarrow> nat" where
  "periods_per_year freq =
     (if freq = ''monthly'' then 12 else if freq = ''quarterly'' then 4 else 1)"

definition rate_per_period :: "string \<Rightarrow> decimal \<Rightarrow> error + decimal" where
  "rate_per_period freq annual =
     (if freq = ''monthly'' then dec_div annual (Dec 12 0)
      else if freq = ''quarterly'' then dec_div annual (Dec 4 0)
      else Inr annual)"

text \<open>
  The annualized return. The operator \<open>**\<close> with a fractional exponent is computed by
  the decimal library's \<open>exp\<close> and \<open>ln\<close>; its result is a parameter \<open>pw\<close> of the model.
\<close>

definition annual_return_of ::
    "(decimal \<Rightarrow> decimal \<Rightarrow> error + decimal) \<Rightarrow> decimal \<Rightarrow> decimal \<Rightarrow> int \<Rightarrow> error + decimal" where
  "annual_return_of pw final_a total_c ys =
     (if 0 < coef total_c \<and> 0 < ys then
        err_bind (dec_div final_a total_c) (\<lambda>ratio.
        err_bind (dec_div (Dec 1 0) (Dec ys 0)) (\<lambda>ex.
        err_bind (pw ratio ex) (\<lambda>p.
        err_bind (dec_sub p (Dec 1 0)) (\<lambda>d.
          dec_mul d (Dec 100 0)))))
      else Inr (Dec 0 0))"

text \<open>
  The state before the first year: \<open>current_amount = principal\<close>,
  \<open>total_contributions = principal\<close>, \<open>yearly_breakdown = []\<close>.
\<close>

definition initial_state :: "calculator_request \<Rightarrow> calc_state" where
  "initial_state r =
     \<lparr>current_amount = principal r, total_contributions_acc = principal r,
      year_contributions = Dec 0 0, year_interest = Dec 0 0, breakdown_acc = []\<rparr>"

text \<open>
  The whole function. \<open>now\<close> is what \<open>datetime.now().isoformat()\<close> returns at the end
  of the call.
\<close>

definition calculate_compound_interest ::
    "(decimal \<Rightarrow> decimal \<Rightarrow> error + decimal) \<Rightarrow> string \<Rightarrow> calculator_request
      \<Rightarrow> error + calculator_response" where
  "calculate_compound_interest pw now request =
     (let monthly_payment' = monthly_payment request;
          freq = compound_frequency request
      in err_bind (dec_div (annual_rate request) (Dec 100 0)) (\<lambda>annual_rate'.
         err_bind (rate_per_period freq annual_rate') (\<lambda>rate.
         err_bind (run_years freq monthly_payment' rate (periods_per_year freq)
                     [1 .. years request] (initial_state request)) (\<lambda>s.
         let final_a = current_amount s; total_c = total_contributions_acc s
         in err_bind (dec_sub final_a total_c) (\<lambda>total_interest'.
            err_bind (annual_return_of pw final_a total_c (years request)) (\<lambda>annual_return'.
            err_bind (quantize2 final_a) (\<lambda>fa.
            err_bind (quantize2 total_c) (\<lambda>tc.
            err_bind (quantize2 total_interest') (\<lambda>ti.
            err_bind (quantize2 annual_return') (\<lambda>ar.
              Inr \<lparr>final_amount = fa, total_contributions = tc, total_interest = ti,
                   annual_return = ar, yearly_breakdown = breakdown_acc s,
                   calculation_time = now\<rparr>))))))))))"

text \<open>
  The response as returned: \<open>calculate_compound_interest\<close> above yields the quantized
  decimals, and the \<open>CalculatorResponse\<close> constructor call converts each with \<open>float\<close>.
\<close>

definition calculate_compound_interest_floats ::
    "(decimal \<Rightarrow> decimal \<Rightarrow> error + decimal) \<Rightarrow> string \<Rightarrow> calculator_request
      \<Rightarrow> error + float_response" where
  "calculate_compound_interest_floats pw now request =
     map_sum id returned_response (calculate_compound_interest pw now request)"

text \<open>
  An instance of the parameter \<open>pw\<close> for closed examples: \<open>x ** 1\<close> is \<open>x\<close> rounded to
  the context, which is the case of a one-year request (\<open>Decimal('1') / Decimal('1')\<close>
  is 1). Other exponents are outside this instance.
\<close>

definition pow_one :: "decimal \<Rightarrow> decimal \<Rightarrow> error + decimal" where
  "pow_one x y = (if y = Dec 1 0 then dec_fix x else Inl PowerNotModelled)"


section \<open>A call in a thread\<close>

text \<open>
  The arithmetic reads the thread's decimal context (\<open>decimal.getcontext()\<close>) and
  writes to it: every operation rounds by the context's settings and adds the signals
  it raises to the context's flags. The service never sets a context, so the model
  covers a thread whose context has the default settings.
\<close>

datatype rounding_mode =
    ROUND_DOWN | ROUND_HALF_UP | ROUND_HALF_EVEN | ROUND_CEILING
  | ROUND_FLOOR | ROUND_UP | ROUND_HALF_DOWN | ROUND_05UP

datatype signal =
    SigClamped | SigDivisionByZero | SigInexact | SigInvalidOperation | SigOverflow
  | SigRounded | SigSubnormal | SigUnderflow | SigFloatOperation




section \<open>Example requests\<close>

text \<open>
  \<open>CalculatorRequest(principal=10000, monthly_payment=500, annual_rate=4.0, years=1,
  compound_frequency="yearly")\<close>: the floats print as \<open>10000.0\<close>, \<open>500.0\<close> and \<open>4.0\<close>.
\<close>

definition yearly_example :: calculator_request where
  "yearly_example =
     \<lparr>principal = Dec 100000 (- 1), monthly_payment = Dec 5000 (- 1),
      annual_rate = Dec 40 (- 1), years = 1, compound_frequency = ''yearly''\<rparr>"

text \<open>The same request with \<open>annual_rate=0.0\<close>.\<close>

definition zero_rate_example :: calculator_request where
  "zero_rate_example = yearly_example\<lparr>annual_rate := Dec 0 (- 1)\<rparr>"



text \<open>
  \<open>CalculatorRequest(principal=0.0049999999999999, monthly_payment=8.3333333333333e-18,
  annual_rate=4.0, years=1, compound_frequency="yearly")\<close>: a request within the validated
  ranges whose contributions sum to just under half a cent, with more than 28 digits.
  The second request is the same with \<open>annual_rate=0.0\<close>.
\<close>

definition tiny_example :: calculator_request where
  "tiny_example =
     \<lparr>principal = Dec 49999999999999 (- 16), monthly_payment = Dec 83333333333333 (- 31),
      annual_rate = Dec 40 (- 1), years = 1, compound_frequency = ''yearly''\<rparr>"

definition tiny_zero_rate_example :: calculator_request where
  "tiny_zero_rate_example = tiny_example\<lparr>annual_rate := Dec 0 (- 1)\<rparr>"

text \<open>Two readings of the clock, one second apart.\<close>

definition clock_a :: string where
  "clock_a = ''2024-01-15T10:30:00''"


text \<open>
  The request with 12 percent a year compounded monthly (1 percent a month).
\<close>

definition monthly_example :: calculator_request where
  "monthly_example =
     yearly_example\<lparr>annual_rate := Dec 120 (- 1), compound_frequency := ''monthly''\<rparr>"



text \<open>
  \<open>CalculatorRequest(principal=100.004, monthly_payment=0.0, annual_rate=4.001, years=1,
  compound_frequency="yearly")\<close>: the final amount 104.005... lies just above a cent
  boundary.
\<close>

definition cent_boundary_example :: calculator_request where
  "cent_boundary_example =
     \<lparr>principal = Dec 100004 (- 3), monthly_payment = Dec 0 (- 1),
      annual_rate = Dec 4001 (- 3), years = 1, compound_frequency = ''yearly''\<rparr>"

text \<open>
  The request of \<open>test_zero_interest_rate\<close>: \<open>principal=10000.0, monthly_payment=500.0,
  annual_rate=0.0, years=5, compound_frequency="monthly"\<close>, as floats and as the
  decimals they print as.
\<close>

definition zero_rate_test_floats :: raw_request where
  "zero_rate_test_floats =
     \<lparr>raw_principal = Float 10000, raw_monthly_payment = Float 500, raw_annual_rate = Float 0,
      raw_years = 5, raw_compound_frequency = ''monthly''\<rparr>"

definition zero_rate_test_request :: calculator_request where
  "zero_rate_test_request =
     \<lparr>principal = Dec 100000 (- 1), monthly_payment = Dec 5000 (- 1),
      annual_rate = Dec 0 (- 1), years = 5, compound_frequency = ''monthly''\<rparr>"

text \<open>A request whose principal is \<open>float('nan')\<close>.\<close>

definition nan_principal_example :: raw_request where
  "nan_principal_example =
     \<lparr>raw_principal = NaN, raw_monthly_payment = Float 500, raw_annual_rate = Float 4,
      raw_years = 1, raw_compound_frequency = ''yearly''\<rparr>"




section \<open>Interest accrual without contributions\<close>

text \<open>
  \<open>n\<close> periods of pure accrual: each period computes the interest on the current amount
  and adds it to the amount and to the year's interest. This is the reference that the
  period loop is compared with when no contribution is made inside the year.
\<close>

fun accrue :: "nat \<Rightarrow> decimal \<Rightarrow> decimal \<Rightarrow> decimal \<Rightarrow> error + decimal \<times> decimal" where
  "accrue 0 rate c yi = Inr (c, yi)"
| "accrue (Suc n) rate c yi =
     err_bind (dec_mul c rate) (\<lambda>period_interest.
     err_bind (dec_add c period_interest) (\<lambda>c'.
     err_bind (dec_add yi period_interest) (\<lambda>yi'.
       accrue n rate c' yi')))"

section \<open>The contribution schedule\<close>

text \<open>
  The balance as the specification schedules it. One period of interest adds the
  interest on the balance. Under monthly compounding every period first adds the
  payment and then the interest on the balance that includes it; under quarterly and
  yearly compounding a year is its periods of interest alone, followed by one
  contribution of \<open>monthly_payment * 12\<close>. \<open>scheduled_balances n\<close> lists the balance at
  the end of each of \<open>n\<close> years.
\<close>

definition interest_step :: "decimal \<Rightarrow> decimal \<Rightarrow> error + decimal" where
  "interest_step rate c = err_bind (dec_mul c rate) (\<lambda>period_interest. dec_add c period_interest)"

definition contribution_then_interest :: "decimal \<Rightarrow> decimal \<Rightarrow> decimal \<Rightarrow> error + decimal" where
  "contribution_then_interest mp rate c = err_bind (dec_add c mp) (interest_step rate)"

fun repeat_step :: "nat \<Rightarrow> (decimal \<Rightarrow> error + decimal) \<Rightarrow> decimal \<Rightarrow> error + decimal" where
  "repeat_step 0 f c = Inr c"
| "repeat_step (Suc n) f c = err_bind (f c) (repeat_step n f)"

definition scheduled_year :: "string \<Rightarrow> decimal \<Rightarrow> decimal \<Rightarrow> decimal \<Rightarrow> error + decimal" where
  "scheduled_year freq mp rate c =
     (if freq = ''monthly'' then repeat_step 12 (contribution_then_interest mp rate) c
      else
        err_bind (repeat_step (if freq = ''quarterly'' then 4 else 1) (interest_step rate) c)
          (\<lambda>accrued.
        err_bind (dec_mul mp (Dec 12 0)) (\<lambda>annual_contribution.
          dec_add accrued annual_contribution)))"

fun scheduled_balances ::
    "nat \<Rightarrow> string \<Rightarrow> decimal \<Rightarrow> decimal \<Rightarrow> decimal \<Rightarrow> error + decimal list" where
  "scheduled_balances 0 freq mp rate c = Inr []"
| "scheduled_balances (Suc n) freq mp rate c =
     err_bind (scheduled_year freq mp rate c) (\<lambda>c'.
     err_bind (scheduled_balances n freq mp rate c') (\<lambda>bs. Inr (c' # bs)))"

section \<open>Decimals that fit the context\<close>

text \<open>
  A decimal that the context holds without rounding: at most 28 digits and an exponent
  not below \<open>Etiny\<close>. \<open>Decimal(str(x))\<close> of a float has at most 17 digits and an
  exponent above -400, so every request field is of this kind.
\<close>

definition representable :: "decimal \<Rightarrow> bool" where
  "representable d = (\<bar>coef d\<bar> < 10 ^ 28 \<and> Etiny \<le> expo d)"

text \<open>
  The sum \<open>principal + 12 * years * monthly_payment\<close> fits the context: written as a
  multiple of the smaller unit of the two amounts it has at most 28 digits. Every
  request within the validated ranges whose amounts have at most 20 decimal places is
  of this kind.
\<close>

definition sums_fit :: "calculator_request \<Rightarrow> bool" where
  "sums_fit r =
     (let g = min (expo (principal r)) (expo (monthly_payment r));
          P = \<bar>coef (principal r)\<bar> * 10 ^ nat (expo (principal r) - g);
          M = \<bar>coef (monthly_payment r)\<bar> * 10 ^ nat (expo (monthly_payment r) - g)
      in Etiny \<le> g \<and> P + 12 * years r * M < 10 ^ 28)"

text \<open>
  The loop invariant for a zero rate: the current amount has the value of the total
  contributions.
\<close>

definition tracks :: "calc_state \<Rightarrow> bool" where
  "tracks s \<longleftrightarrow> val (current_amount s) = val (total_contributions_acc s) \<and>
     representable (current_amount s)"

section \<open>Rounding to cents, as a function on values\<close>

text \<open>
  Half-up rounding to two decimal places (ties away from zero), the reference that
  \<open>quantize(Decimal('0.01'), rounding=ROUND_HALF_UP)\<close> is compared with.
\<close>

definition round_cents :: "rat \<Rightarrow> rat" where
  "round_cents x = sgn x * of_int \<lfloor>\<bar>x\<bar> * 100 + 1 / 2\<rfloor> / 100"

section \<open>Facts about the decimal operations\<close>

lemma ndigits_pos: "1 \<le> ndigits n"
proof (induction n rule: ndigits.induct)
  case (1 n)
  show ?case
  proof (cases "n < 10")
    case True
    then show ?thesis by (subst ndigits.simps) simp
  next
    case False
    with "1.IH" have "1 \<le> ndigits (n div 10)" by simp
    with False show ?thesis by (subst ndigits.simps) simp
  qed
qed

lemma ndigits_bounds:
  "0 < n \<Longrightarrow> 10 ^ nat (ndigits n - 1) \<le> n \<and> n < 10 ^ nat (ndigits n)"
proof (induction n rule: ndigits.induct)
  case (1 n)
  show ?case
  proof (cases "n < 10")
    case True
    with "1.prems" show ?thesis by (subst (1 2) ndigits.simps) simp
  next
    case False
    define k where "k = ndigits (n div 10)"
    have kpos: "1 \<le> k" unfolding k_def by (rule ndigits_pos)
    from False have pos: "0 < n div 10" by simp
    from "1.IH" [OF False pos]
    have lo: "10 ^ nat (k - 1) \<le> n div 10" and hi: "n div 10 < 10 ^ nat k"
      by (simp_all add: k_def)
    have nd: "ndigits n = 1 + k"
      using False by (subst ndigits.simps) (simp add: k_def)
    have e1: "nat (1 + k - 1) = Suc (nat (k - 1))" using kpos by simp
    have e2: "nat (1 + k) = Suc (nat k)" using kpos by simp
    have "10 * 10 ^ nat (k - 1) \<le> n" using lo by simp
    moreover have "n < 10 * 10 ^ nat k" using hi by simp
    ultimately show ?thesis unfolding nd e1 e2 by simp
  qed
qed

lemma ndigits_le: "n < 10 ^ k \<Longrightarrow> 0 < k \<Longrightarrow> ndigits n \<le> int k"
proof (cases "0 < n")
  case False
  assume "0 < k"
  moreover from False have "ndigits n = 1" by (subst ndigits.simps) simp
  ultimately show ?thesis by simp
next
  case True
  assume lt: "n < 10 ^ k" and "0 < k"
  from ndigits_bounds [OF True] lt
  have "(10::int) ^ nat (ndigits n - 1) < 10 ^ k" by linarith
  then have "nat (ndigits n - 1) < k"
    by (rule power_less_imp_less_exp [of "10::int", rotated]) simp
  then show ?thesis by simp
qed

lemma ndigits_gt: "10 ^ k \<le> n \<Longrightarrow> int k < ndigits n"
proof -
  assume le: "10 ^ k \<le> n"
  have "(0::int) < 10 ^ k" by simp
  with le have "0 < n" by linarith
  from ndigits_bounds [OF this] le
  have "(10::int) ^ k < 10 ^ nat (ndigits n)" by linarith
  then have "k < nat (ndigits n)"
    by (rule power_less_imp_less_exp [of "10::int", rotated]) simp
  then show ?thesis by simp
qed

lemma val_powi: "val d = of_int (coef d) * 10 powi (expo d)"
proof (cases "0 \<le> expo d")
  case True
  have "val d = of_int (coef d) * 10 ^ nat (expo d)"
    unfolding val_def using True by simp
  also have "(10::rat) ^ nat (expo d) = 10 powi (expo d)"
    using True by (rule power_int_nonneg_exp [symmetric])
  finally show ?thesis .
next
  case False
  then have n: "0 \<le> - expo d" by simp
  have "val d = of_int (coef d) / 10 ^ nat (- expo d)"
    unfolding val_def using False by simp
  also have "(10::rat) ^ nat (- expo d) = 10 powi (- expo d)"
    using n by (rule power_int_nonneg_exp [symmetric])
  also have "of_int (coef d) / (10::rat) powi (- expo d) = of_int (coef d) * 10 powi (expo d)"
    by (simp only: power_int_minus divide_inverse inverse_inverse_eq)
  finally show ?thesis .
qed


lemma round_half_even_exact: "m mod 10 ^ k = 0 \<Longrightarrow> round_half_even m k = m div 10 ^ k"
  by (simp add: round_half_even_def Let_def)

lemma round_half_even_bounds:
  "m div 10 ^ k \<le> round_half_even m k \<and> round_half_even m k \<le> m div 10 ^ k + 1"
  by (simp add: round_half_even_def Let_def)

lemma round_half_even_err:
  "\<bar>2 * (round_half_even m k * 10 ^ k - m)\<bar> \<le> 10 ^ k"
proof -
  define p :: int where "p = 10 ^ k"
  have ppos: "0 < p" by (simp add: p_def)
  have dm: "m = (m div p) * p + m mod p" by simp
  have r0: "0 \<le> m mod p" and r1: "m mod p < p" using ppos by simp_all
  show ?thesis
  proof (cases "p < 2 * (m mod p) \<or> (2 * (m mod p) = p \<and> odd (m div p))")
    case True
    then have c: "round_half_even m k = m div p + 1"
      by (simp add: round_half_even_def Let_def p_def)
    have "round_half_even m k * p - m = p - m mod p"
      unfolding c using dm by (simp add: algebra_simps)
    then show ?thesis unfolding p_def [symmetric] using True r0 r1 by auto
  next
    case False
    then have c: "round_half_even m k = m div p"
      by (simp add: round_half_even_def Let_def p_def)
    have "round_half_even m k * p - m = - (m mod p)"
      unfolding c using dm by (simp add: algebra_simps)
    then show ?thesis unfolding p_def [symmetric] using False r0 r1 by auto
  qed
qed

lemma round_half_up_bounds:
  "m div 10 ^ k \<le> round_half_up m k \<and> round_half_up m k \<le> m div 10 ^ k + 1"
  by (simp add: round_half_up_def Let_def)

lemma round_half_up_err:
  "\<bar>2 * (round_half_up m k * 10 ^ k - m)\<bar> \<le> 10 ^ k"
proof -
  define p :: int where "p = 10 ^ k"
  have ppos: "0 < p" by (simp add: p_def)
  have dm: "m = (m div p) * p + m mod p" by simp
  have r0: "0 \<le> m mod p" and r1: "m mod p < p" using ppos by simp_all
  show ?thesis
  proof (cases "p \<le> 2 * (m mod p)")
    case True
    then have c: "round_half_up m k = m div p + 1"
      by (simp add: round_half_up_def Let_def p_def)
    have "round_half_up m k * p - m = p - m mod p"
      unfolding c using dm by (simp add: algebra_simps)
    then show ?thesis unfolding p_def [symmetric] using True r0 r1 by auto
  next
    case False
    then have c: "round_half_up m k = m div p"
      by (simp add: round_half_up_def Let_def p_def)
    have "round_half_up m k * p - m = - (m mod p)"
      unfolding c using dm by (simp add: algebra_simps)
    then show ?thesis unfolding p_def [symmetric] using False r0 r1 by auto
  qed
qed

text \<open>The quotient that rounding starts from has at most \<open>prec\<close> digits.\<close>

lemma div_pow_less:
  assumes "0 < m" "ndigits m - 28 \<le> int k"
  shows "m div 10 ^ k < 10 ^ 28"
proof -
  have n1: "1 \<le> ndigits m" by (rule ndigits_pos)
  from ndigits_bounds [OF assms(1)] have "m < 10 ^ nat (ndigits m)" by simp
  also have "(10::int) ^ nat (ndigits m) \<le> 10 ^ (28 + k)"
    using assms(2) by (intro power_increasing) auto
  finally have lt: "m < 10 ^ 28 * 10 ^ k" by (simp add: power_add)
  have "(m div 10 ^ k) * 10 ^ k \<le> m"
    by (metis add.commute div_mult_mod_eq le_add_same_cancel2 pos_mod_sign zero_less_numeral zero_less_power)
  with lt have "(m div 10 ^ k) * 10 ^ k < 10 ^ 28 * 10 ^ k" by linarith
  then show ?thesis by (simp only: mult_less_cancel_right) simp
qed

lemma div_pow_ge:
  assumes "0 < m" "int k = ndigits m - 28"
  shows "10 ^ 27 \<le> m div 10 ^ k"
proof -
  have eq: "nat (ndigits m - 1) = 27 + k" using assms(2) by simp
  from ndigits_bounds [OF assms(1)] have "10 ^ (27 + k) \<le> m" unfolding eq by simp
  then have "10 ^ 27 * 10 ^ k \<le> m" by (simp add: power_add)
  then have "(10 ^ 27 * 10 ^ k) div 10 ^ k \<le> m div 10 ^ k"
    by (rule zdiv_mono1) simp
  then show ?thesis by simp
qed


lemma dec_fix_cases [consumes 1, case_names zero same round carry]:
  assumes fx: "dec_fix (Dec m e) = Inr d'"
  obtains "m = 0" "d' = Dec 0 (min (max e Etiny) Emax)"
  | "m \<noteq> 0" "d' = Dec m e" "ndigits \<bar>m\<bar> \<le> 28" "Etiny \<le> e"
  | k where "m \<noteq> 0" "0 < k" "int k = max (ndigits \<bar>m\<bar> + e - 28) Etiny - e"
      "round_half_even \<bar>m\<bar> k < 10 ^ 28"
      "d' = Dec (sgn m * round_half_even \<bar>m\<bar> k) (e + int k)"
  | k where "m \<noteq> 0" "0 < k" "int k = max (ndigits \<bar>m\<bar> + e - 28) Etiny - e"
      "round_half_even \<bar>m\<bar> k = 10 ^ 28"
      "d' = Dec (sgn m * 10 ^ 27) (e + int k + 1)"
proof (cases "m = 0")
  case True
  with fx have "d' = Dec 0 (min (max e Etiny) Emax)" by (simp add: dec_fix_def)
  with True that(1) show ?thesis by blast
next
  case mnz: False
  define em where "em = max (ndigits \<bar>m\<bar> + e - 28) Etiny"
  show ?thesis
  proof (cases "e < em")
    case False
    with fx mnz have d': "d' = Dec m e"
      by (simp add: dec_fix_def Let_def em_def prec_def split: if_splits)
    from False have "ndigits \<bar>m\<bar> \<le> 28" "Etiny \<le> e" by (simp_all add: em_def)
    with that(2) mnz d' show ?thesis by blast
  next
    case True
    define k where "k = nat (em - e)"
    define c where "c = round_half_even \<bar>m\<bar> k"
    have kpos: "0 < k" and kint: "int k = em - e" using True by (simp_all add: k_def)
    have apos: "0 < \<bar>m\<bar>" using mnz by simp
    have "ndigits \<bar>m\<bar> - 28 \<le> int k" unfolding kint em_def by simp
    from div_pow_less [OF apos this] round_half_even_bounds [of "\<bar>m\<bar>" k]
    have cle: "c \<le> 10 ^ 28" unfolding c_def by linarith
    show ?thesis
    proof (cases "prec < ndigits c")
      case long: True
      have "\<not> c < 10 ^ 28"
      proof
        assume "c < 10 ^ 28"
        then have "ndigits c \<le> int 28" by (rule ndigits_le) simp
        with long show False by (simp add: prec_def)
      qed
      with cle have ceq: "c = 10 ^ 28" by simp
      from fx mnz True long have "d' = Dec (sgn m * (c div 10)) (em + 1)"
        by (simp add: dec_fix_def Let_def em_def [symmetric] prec_def k_def [symmetric]
            c_def [symmetric] split: if_splits)
      then have "d' = Dec (sgn m * 10 ^ 27) (e + int k + 1)"
        unfolding ceq kint by simp
      with that(4) [of k] mnz kpos kint ceq show ?thesis
        unfolding c_def em_def by blast
    next
      case short: False
      have clt: "c < 10 ^ 28"
      proof (rule ccontr)
        assume "\<not> c < 10 ^ 28"
        then have "10 ^ 28 \<le> c" by simp
        then have "int 28 < ndigits c" by (rule ndigits_gt)
        with short show False by (simp add: prec_def)
      qed
      from fx mnz True short have "d' = Dec (sgn m * c) em"
        by (simp add: dec_fix_def Let_def em_def [symmetric] prec_def k_def [symmetric]
            c_def [symmetric] split: if_splits)
      then have "d' = Dec (sgn m * c) (e + int k)" unfolding kint by simp
      with that(3) [of k] mnz kpos kint clt show ?thesis
        unfolding c_def em_def by blast
    qed
  qed
qed


lemma Etiny_le_Emax: "Etiny \<le> Emax"
  by (simp add: Etiny_def Emax_def Emin_def prec_def)

lemma abs_less_pow_of_ndigits:
  assumes "ndigits \<bar>m\<bar> \<le> 28"
  shows "\<bar>m\<bar> < 10 ^ 28"
proof (cases "m = 0")
  case True
  then show ?thesis by simp
next
  case False
  then have "0 < \<bar>m\<bar>" by simp
  from ndigits_bounds [OF this] have "\<bar>m\<bar> < 10 ^ nat (ndigits \<bar>m\<bar>)" by simp
  also have "(10::int) ^ nat (ndigits \<bar>m\<bar>) \<le> 10 ^ 28"
    using assms by (intro power_increasing) auto
  finally show ?thesis .
qed

lemma round_half_even_nonneg: "0 \<le> m \<Longrightarrow> 0 \<le> round_half_even m k"
proof -
  assume "0 \<le> m"
  then have "0 \<le> m div 10 ^ k" by (simp add: pos_imp_zdiv_nonneg_iff)
  with round_half_even_bounds [of m k] show ?thesis by linarith
qed

lemma dec_fix_coef_bound:
  assumes "dec_fix d = Inr d'"
  shows "\<bar>coef d'\<bar> < 10 ^ 28"
proof -
  obtain m e where d: "d = Dec m e" by (cases d)
  from assms [unfolded d] show ?thesis
  proof (cases rule: dec_fix_cases)
    case zero
    then show ?thesis by simp
  next
    case same
    then show ?thesis using abs_less_pow_of_ndigits [of m] by simp
  next
    case (round k)
    have "0 \<le> round_half_even \<bar>m\<bar> k" by (rule round_half_even_nonneg) simp
    with round show ?thesis by (simp add: abs_mult abs_sgn_eq)
  next
    case (carry k)
    then show ?thesis by (simp add: abs_mult abs_sgn_eq)
  qed
qed

lemma dec_fix_expo_lower:
  assumes "dec_fix d = Inr d'"
  shows "Etiny \<le> expo d'"
proof -
  obtain m e where d: "d = Dec m e" by (cases d)
  from assms [unfolded d] show ?thesis
  proof (cases rule: dec_fix_cases)
    case zero
    then show ?thesis using Etiny_le_Emax by simp
  next
    case same
    then show ?thesis by simp
  next
    case (round k)
    then show ?thesis by simp
  next
    case (carry k)
    then show ?thesis by simp
  qed
qed

lemma val_Dec: "val (Dec m e) = of_int m * 10 powi e"
  by (simp add: val_powi)

lemma p10_add: "(10::rat) powi (e + int k) = 10 powi e * 10 ^ k"
  by (simp add: power_int_add)

text \<open>A value that fits the precision on some grid at or above \<open>Etiny\<close> is kept exactly.\<close>

lemma dec_fix_exact_val:
  assumes fx: "dec_fix (Dec m e) = Inr d'"
    and grid: "m = a * 10 ^ j" "\<bar>a\<bar> < 10 ^ 28" "Etiny \<le> e + int j"
  shows "val d' = val (Dec m e)"
proof -
  have exact: "round_half_even \<bar>m\<bar> k = \<bar>m\<bar> div 10 ^ k \<and> (\<bar>m\<bar> div 10 ^ k) * 10 ^ k = \<bar>m\<bar>
      \<and> \<bar>m\<bar> div 10 ^ k < 10 ^ 28"
    if mnz: "m \<noteq> 0" and k: "int k = max (ndigits \<bar>m\<bar> + e - 28) Etiny - e" for k
  proof -
    have "\<bar>m\<bar> = \<bar>a\<bar> * 10 ^ j" using grid(1) by (simp add: abs_mult)
    also have "\<dots> < 10 ^ 28 * 10 ^ j" using grid(2) by simp
    finally have "\<bar>m\<bar> < 10 ^ (28 + j)" by (simp add: power_add)
    then have "ndigits \<bar>m\<bar> \<le> int (28 + j)" by (rule ndigits_le) simp
    with k grid(3) have kj: "k \<le> j" by simp
    then obtain i where j: "j = k + i" using le_Suc_ex by blast
    have dv: "\<bar>m\<bar> = (\<bar>a\<bar> * 10 ^ i) * 10 ^ k"
      using grid(1) by (simp add: abs_mult j power_add)
    then have md: "\<bar>m\<bar> mod 10 ^ k = 0" by simp
    have "ndigits \<bar>m\<bar> - 28 \<le> int k" using k by simp
    with mnz have "\<bar>m\<bar> div 10 ^ k < 10 ^ 28" by (intro div_pow_less) simp_all
    with md round_half_even_exact [OF md] show ?thesis by (simp add: dv)
  qed
  from fx show ?thesis
  proof (cases rule: dec_fix_cases)
    case zero
    then show ?thesis by (simp add: val_Dec)
  next
    case same
    then show ?thesis by simp
  next
    case (round k)
    from exact [OF round(1,3)] have c: "round_half_even \<bar>m\<bar> k * 10 ^ k = \<bar>m\<bar>" by simp
    have "val d' = of_int (sgn m * (round_half_even \<bar>m\<bar> k * 10 ^ k)) * 10 powi e"
      unfolding round(5) val_Dec p10_add by simp
    also have "\<dots> = of_int m * 10 powi e" unfolding c by (simp add: sgn_mult_abs)
    finally show ?thesis by (simp add: val_Dec)
  next
    case (carry k)
    from exact [OF carry(1,3)] carry(4) show ?thesis by simp
  qed
qed


lemma rounded_val_err_gen:
  fixes E :: rat
  assumes E: "0 < E" and c: "\<bar>2 * (c * 10 ^ k - \<bar>m\<bar>)\<bar> \<le> 10 ^ k"
  shows "\<bar>of_int (sgn m * (c * 10 ^ k)) * E - of_int m * E\<bar> \<le> E * 10 ^ k / 2"
proof -
  have "sgn m * \<bar>m\<bar> = m" by (rule sgn_mult_abs)
  then have "sgn m * (c * 10 ^ k) - m = sgn m * (c * 10 ^ k - \<bar>m\<bar>)"
    by (simp add: right_diff_distrib)
  then have "\<bar>sgn m * (c * 10 ^ k) - m\<bar> \<le> \<bar>c * 10 ^ k - \<bar>m\<bar>\<bar>"
    by (simp add: abs_mult abs_sgn_eq)
  then have "2 * \<bar>sgn m * (c * 10 ^ k) - m\<bar> \<le> 2 * \<bar>c * 10 ^ k - \<bar>m\<bar>\<bar>"
    by simp
  also from c have "2 * \<bar>c * 10 ^ k - \<bar>m\<bar>\<bar> \<le> 10 ^ k"
    by (simp only: abs_mult abs_numeral)
  finally have i: "2 * \<bar>sgn m * (c * 10 ^ k) - m\<bar> \<le> 10 ^ k" .
  have "(of_int (2 * \<bar>sgn m * (c * 10 ^ k) - m\<bar>) :: rat) \<le> of_int (10 ^ k)"
    using i by (simp only: of_int_le_iff)
  then have r: "2 * \<bar>of_int (sgn m * (c * 10 ^ k)) - (of_int m :: rat)\<bar> \<le> 10 ^ k"
    by simp
  have "\<bar>of_int (sgn m * (c * 10 ^ k)) * E - of_int m * E\<bar>
      = \<bar>of_int (sgn m * (c * 10 ^ k)) - (of_int m :: rat)\<bar> * E"
    using E by (simp add: left_diff_distrib [symmetric] abs_mult)
  also have "\<dots> \<le> (10 ^ k / 2) * E"
    using r E by (intro mult_right_mono) simp_all
  finally show ?thesis by (simp add: mult.commute)
qed

lemma rounded_val_err:
  fixes E :: rat
  assumes E: "0 < E"
  shows "\<bar>of_int (sgn m * (round_half_even \<bar>m\<bar> k * 10 ^ k)) * E - of_int m * E\<bar> \<le> E * 10 ^ k / 2"
  using E round_half_even_err by (rule rounded_val_err_gen)

text \<open>
  What rounding to the context can change: nothing, or at most half a unit of the
  result's last place; and a changed result has a full coefficient unless it is
  subnormal.
\<close>

lemma dec_fix_error:
  assumes fx: "dec_fix (Dec m e) = Inr d'"
  shows "val d' = val (Dec m e) \<or>
         (\<bar>val d' - val (Dec m e)\<bar> \<le> 10 powi (expo d') / 2 \<and>
          (10 ^ 27 \<le> \<bar>coef d'\<bar> \<or> expo d' = Etiny))"
proof -
  have Epos: "0 < (10::rat) powi e" by simp
  from fx show ?thesis
  proof (cases rule: dec_fix_cases)
    case zero
    then show ?thesis by (simp add: val_Dec)
  next
    case same
    then show ?thesis by simp
  next
    case (round k)
    define c where "c = round_half_even \<bar>m\<bar> k"
    have v: "val d' = of_int (sgn m * (round_half_even \<bar>m\<bar> k * 10 ^ k)) * 10 powi e"
      unfolding round(5) val_Dec p10_add by simp
    have "\<bar>val d' - val (Dec m e)\<bar> \<le> 10 powi e * 10 ^ k / 2"
      unfolding v val_Dec by (rule rounded_val_err [OF Epos])
    also have "\<dots> = 10 powi (expo d') / 2"
      unfolding round(5) decimal.sel p10_add by simp
    finally have err: "\<bar>val d' - val (Dec m e)\<bar> \<le> 10 powi (expo d') / 2" .
    have full: "10 ^ 27 \<le> \<bar>coef d'\<bar> \<or> expo d' = Etiny"
    proof (cases "Etiny \<le> ndigits \<bar>m\<bar> + e - 28")
      case True
      with round(3) have k: "int k = ndigits \<bar>m\<bar> - 28" by simp
      from round(1) have "0 < \<bar>m\<bar>" by simp
      from div_pow_ge [OF this k] round_half_even_bounds [of "\<bar>m\<bar>" k]
      have "10 ^ 27 \<le> c" unfolding c_def by linarith
      then show ?thesis unfolding round(5) c_def [symmetric] using round(1)
        by (simp add: abs_mult abs_sgn_eq)
    next
      case False
      with round(3) have "e + int k = Etiny" by simp
      then show ?thesis unfolding round(5) by simp
    qed
    from err full show ?thesis by blast
  next
    case (carry k)
    have v: "val d' = of_int (sgn m * (round_half_even \<bar>m\<bar> k * 10 ^ k)) * 10 powi e"
      unfolding carry(5) carry(4) val_Dec
      by (simp add: power_int_add algebra_simps)
    have "\<bar>val d' - val (Dec m e)\<bar> \<le> 10 powi e * 10 ^ k / 2"
      unfolding v val_Dec by (rule rounded_val_err [OF Epos])
    also have "\<dots> \<le> 10 powi (expo d') / 2"
      unfolding carry(5) decimal.sel by (simp add: power_int_add)
    finally have err: "\<bar>val d' - val (Dec m e)\<bar> \<le> 10 powi (expo d') / 2" .
    have "10 ^ 27 \<le> \<bar>coef d'\<bar>" unfolding carry(5) using carry(1)
      by (simp add: abs_mult abs_sgn_eq)
    with err show ?thesis by blast
  qed
qed


lemma quantize2_cases:
  assumes q: "quantize2 (Dec m e) = Inr q"
  shows "q = rescale_half_up (Dec m e) (- 2) \<and> \<bar>coef q\<bar> < 10 ^ 28 \<and>
         (m \<noteq> 0 \<longrightarrow> ndigits \<bar>m\<bar> + e \<le> 26)"
proof (cases "m = 0")
  case True
  with q have "q = Dec 0 (- 2)"
    by (simp add: quantize2_def quantize_def dec_fix_def Etiny_def Emax_def Emin_def prec_def)
  with True show ?thesis by (simp add: rescale_half_up_def round_half_up_def)
next
  case False
  define ans where "ans = rescale_half_up (Dec m e) (- 2)"
  have ex: "expo ans = - 2" by (simp add: ans_def rescale_half_up_def)
  from q False have c1: "ndigits \<bar>m\<bar> + e \<le> 26"
    by (simp add: quantize2_def quantize_def adjusted_def prec_def Let_def split: if_splits)
  from q False have c2: "ndigits \<bar>coef ans\<bar> \<le> 28"
    by (simp add: quantize2_def quantize_def ans_def [symmetric] prec_def Let_def
        split: if_splits)
  from q False have fx: "dec_fix ans = Inr q"
    by (simp add: quantize2_def quantize_def ans_def [symmetric] Let_def split: if_splits)
  obtain ma where ans: "ans = Dec ma (- 2)" using ex by (cases ans) simp
  have small: "max (ndigits \<bar>ma\<bar> + - 2 - 28) Etiny - - 2 \<le> 0"
    using c2 unfolding ans by (simp add: Etiny_def Emin_def prec_def)
  from fx [unfolded ans] have "q = Dec ma (- 2)"
  proof (cases rule: dec_fix_cases)
    case zero
    then show ?thesis by (simp add: Etiny_def Emax_def Emin_def prec_def)
  next
    case same
    then show ?thesis by simp
  next
    case (round k)
    with small show ?thesis by simp
  next
    case (carry k)
    with small show ?thesis by simp
  qed
  moreover have "\<bar>ma\<bar> < 10 ^ 28"
    using c2 unfolding ans by (intro abs_less_pow_of_ndigits) simp
  ultimately show ?thesis using c1 False by (simp add: ans ans_def [symmetric])
qed

lemma quantize2_expo: "quantize2 d = Inr q \<Longrightarrow> expo q = - 2"
  using quantize2_cases [of "coef d" "expo d" q] by (simp add: rescale_half_up_def)

lemma val_cents: "expo q = - 2 \<Longrightarrow> val q = of_int (coef q) / 100"
  by (simp add: val_def)


lemma quantize2_exact:
  assumes "quantize2 d = Inr q" "- 2 \<le> expo d"
  shows "val q = val d"
proof -
  obtain m e where d: "d = Dec m e" by (cases d)
  from assms(2) have e: "- 2 \<le> e" by (simp add: d)
  from quantize2_cases [OF assms(1) [unfolded d]] e
  have q: "q = Dec (m * 10 ^ nat (e + 2)) (- 2)" by (simp add: rescale_half_up_def)
  have "(10::rat) powi e = 10 powi (- 2 + int (nat (e + 2)))" using e by simp
  also have "\<dots> = 10 powi (- 2) * 10 ^ nat (e + 2)" by (rule p10_add)
  finally show ?thesis unfolding q d val_Dec by simp
qed

lemma quantize2_err:
  assumes "quantize2 d = Inr q"
  shows "\<bar>val q - val d\<bar> \<le> 1 / 200"
proof (cases "- 2 \<le> expo d")
  case True
  with assms show ?thesis by (simp add: quantize2_exact)
next
  case False
  obtain m e where d: "d = Dec m e" by (cases d)
  from False have e: "e < - 2" by (simp add: d)
  define k where "k = nat (- 2 - e)"
  have ek: "- 2 = e + int k" using e by (simp add: k_def)
  from quantize2_cases [OF assms [unfolded d]] e
  have q: "q = Dec (sgn m * round_half_up \<bar>m\<bar> k) (- 2)"
    by (simp add: rescale_half_up_def k_def)
  have p: "(10::rat) powi (- 2) = 10 powi e * 10 ^ k" unfolding ek by (rule p10_add)
  have v: "val q = of_int (sgn m * (round_half_up \<bar>m\<bar> k * 10 ^ k)) * 10 powi e"
    unfolding q val_Dec p by simp
  have "\<bar>val q - val d\<bar> \<le> 10 powi e * 10 ^ k / 2"
    unfolding v d val_Dec
    by (rule rounded_val_err_gen [OF _ round_half_up_err]) simp
  also have "\<dots> = 1 / 200" unfolding p [symmetric] by simp
  finally show ?thesis .
qed

lemma floor_half_up:
  fixes a p :: int
  assumes p: "0 < p" and a: "0 \<le> a"
  shows "\<lfloor>(of_int a :: rat) / of_int p + 1 / 2\<rfloor> = (if p \<le> 2 * (a mod p) then a div p + 1 else a div p)"
proof -
  define q r where "q = a div p" and "r = a mod p"
  have a_eq: "a = q * p + r" by (simp add: q_def r_def)
  have r0: "0 \<le> r" and r1: "r < p" using p by (simp_all add: r_def)
  have P: "(0::rat) < of_int p" using p by simp
  define R :: rat where "R = of_int r / of_int p"
  have x: "(of_int a :: rat) / of_int p + 1 / 2 = of_int q + (R + 1 / 2)"
    unfolding a_eq R_def using P by (simp add: field_simps)
  have lo: "0 \<le> R" unfolding R_def using r0 P by simp
  have hi: "R < 1" unfolding R_def using r1 P by simp
  show ?thesis
  proof (cases "p \<le> 2 * r")
    case True
    then have "(of_int p :: rat) \<le> 2 * of_int r" by (metis of_int_le_iff of_int_mult of_int_numeral)
    then have h: "1 / 2 \<le> R" unfolding R_def using P by (simp add: field_simps)
    have "\<lfloor>of_int q + (R + 1 / 2)\<rfloor> = q + 1"
    proof (rule floor_unique)
      show "of_int (q + 1) \<le> of_int q + (R + 1 / 2)" using h by simp
      show "of_int q + (R + 1 / 2) < of_int (q + 1) + 1" using hi by simp
    qed
    with True show ?thesis unfolding x by (simp add: q_def r_def)
  next
    case False
    then have "2 * (of_int r :: rat) < of_int p" by (metis not_le of_int_less_iff of_int_mult of_int_numeral)
    then have h: "R < 1 / 2" unfolding R_def using P by (simp add: field_simps)
    have "\<lfloor>of_int q + (R + 1 / 2)\<rfloor> = q"
    proof (rule floor_unique)
      show "of_int q \<le> of_int q + (R + 1 / 2)" using lo by simp
      show "of_int q + (R + 1 / 2) < of_int q + 1" using h by simp
    qed
    with False show ?thesis unfolding x by (simp add: q_def r_def)
  qed
qed

lemma sgn_rat_of_int: "sgn (of_int m :: rat) = of_int (sgn m)"
  by (simp add: sgn_if)

lemma quantize2_round_cents:
  assumes "quantize2 d = Inr q"
  shows "val q = round_cents (val d)"
proof -
  obtain m e where d: "d = Dec m e" by (cases d)
  have sg: "sgn (val d) = of_int (sgn m)"
    unfolding d val_Dec by (simp add: sgn_mult sgn_rat_of_int)
  have ab: "\<bar>val d\<bar> = of_int \<bar>m\<bar> * 10 powi e"
    unfolding d val_Dec by (simp add: abs_mult)
  show ?thesis
  proof (cases "- 2 \<le> e")
    case True
    have "(10::rat) powi e = 10 powi (- 2 + int (nat (e + 2)))" using True by simp
    also have "\<dots> = 10 powi (- 2) * 10 ^ nat (e + 2)" by (rule p10_add)
    finally have p: "(10::rat) powi e = 10 ^ nat (e + 2) / 100" by simp
    have "\<bar>val d\<bar> * 100 + 1 / 2 = of_int (\<bar>m\<bar> * 10 ^ nat (e + 2)) + 1 / 2"
      unfolding ab p by simp
    moreover have "\<lfloor>(of_int (\<bar>m\<bar> * 10 ^ nat (e + 2)) :: rat) + 1 / 2\<rfloor> = \<bar>m\<bar> * 10 ^ nat (e + 2)"
      by (rule floor_unique) simp_all
    ultimately have fl: "\<lfloor>\<bar>val d\<bar> * 100 + 1 / 2\<rfloor> = \<bar>m\<bar> * 10 ^ nat (e + 2)"
      by simp
    have "val q = val d" using assms True by (simp add: quantize2_exact d)
    also have "\<dots> = of_int (sgn m * (\<bar>m\<bar> * 10 ^ nat (e + 2))) / 100"
      unfolding d val_Dec p by (simp add: sgn_mult_abs mult.assoc [symmetric])
    finally show ?thesis unfolding round_cents_def sg fl by simp
  next
    case False
    then have e: "e < - 2" by simp
    define k where "k = nat (- 2 - e)"
    have ek: "- 2 = e + int k" using e by (simp add: k_def)
    from quantize2_cases [OF assms [unfolded d]] e
    have q: "q = Dec (sgn m * round_half_up \<bar>m\<bar> k) (- 2)"
      by (simp add: rescale_half_up_def k_def)
    have "(10::rat) powi (- 2) = 10 powi e * 10 ^ k" unfolding ek by (rule p10_add)
    then have p: "(10::rat) powi e = 1 / (100 * 10 ^ k)" by (simp add: field_simps)
    have "\<bar>val d\<bar> * 100 + 1 / 2 = of_int \<bar>m\<bar> / of_int (10 ^ k) + 1 / 2"
      unfolding ab p by simp
    moreover have "\<lfloor>(of_int \<bar>m\<bar> :: rat) / of_int (10 ^ k) + 1 / 2\<rfloor> = round_half_up \<bar>m\<bar> k"
      unfolding round_half_up_def Let_def by (rule floor_half_up) simp_all
    ultimately have fl: "\<lfloor>\<bar>val d\<bar> * 100 + 1 / 2\<rfloor> = round_half_up \<bar>m\<bar> k"
      by simp
    show ?thesis unfolding round_cents_def sg fl q val_Dec by simp
  qed
qed


lemma err_bind_Inr: "err_bind m f = Inr y \<longleftrightarrow> (\<exists>x. m = Inr x \<and> f x = Inr y)"
  by (cases m) (simp_all add: err_bind_def)

lemma err_bind_simps [simp]:
  "err_bind (Inr x) f = f x"
  "err_bind (Inl e) f = Inl e"
  by (simp_all add: err_bind_def)

lemma calculate_Inr_elim:
  assumes "calculate_compound_interest pw now r = Inr resp"
  obtains a rt s ti ar where
    "dec_div (annual_rate r) (Dec 100 0) = Inr a"
    "rate_per_period (compound_frequency r) a = Inr rt"
    "run_years (compound_frequency r) (monthly_payment r) rt
       (periods_per_year (compound_frequency r)) [1 .. years r] (initial_state r) = Inr s"
    "dec_sub (current_amount s) (total_contributions_acc s) = Inr ti"
    "annual_return_of pw (current_amount s) (total_contributions_acc s) (years r) = Inr ar"
    "quantize2 (current_amount s) = Inr (final_amount resp)"
    "quantize2 (total_contributions_acc s) = Inr (total_contributions resp)"
    "quantize2 ti = Inr (total_interest resp)"
    "quantize2 ar = Inr (annual_return resp)"
    "yearly_breakdown resp = breakdown_acc s"
    "calculation_time resp = now"
  using assms
  unfolding calculate_compound_interest_def Let_def err_bind_Inr initial_state_def [symmetric]
  by (elim exE conjE) (cases resp, auto)

lemma dec_add_exact_sum:
  "val (Dec (coef a * 10 ^ nat (expo a - min (expo a) (expo b))
            + coef b * 10 ^ nat (expo b - min (expo a) (expo b))) (min (expo a) (expo b)))
   = val a + val b"
proof -
  define e where "e = min (expo a) (expo b)"
  have ea: "expo a = e + int (nat (expo a - e))" and eb: "expo b = e + int (nat (expo b - e))"
    by (simp_all add: e_def)
  have pa: "(10::rat) powi (expo a) = 10 powi e * 10 ^ nat (expo a - e)"
    by (subst ea) (rule p10_add)
  have pb: "(10::rat) powi (expo b) = 10 powi e * 10 ^ nat (expo b - e)"
    by (subst eb) (rule p10_add)
  show ?thesis
    unfolding e_def [symmetric] val_Dec val_powi [of a] val_powi [of b] pa pb
    by (simp add: algebra_simps)
qed

lemma dec_add_error:
  assumes "dec_add a b = Inr c"
  shows "val c = val a + val b \<or>
         (\<bar>val c - (val a + val b)\<bar> \<le> 10 powi (expo c) / 2 \<and>
          (10 ^ 27 \<le> \<bar>coef c\<bar> \<or> expo c = Etiny))"
  using dec_fix_error [OF assms [unfolded dec_add_def Let_def]]
  unfolding dec_add_exact_sum .

lemma val_neg [simp]: "val (dec_neg a) = - val a"
  by (simp add: dec_neg_def val_powi)

lemma dec_sub_error:
  assumes "dec_sub a b = Inr c"
  shows "val c = val a - val b \<or>
         (\<bar>val c - (val a - val b)\<bar> \<le> 10 powi (expo c) / 2 \<and>
          (10 ^ 27 \<le> \<bar>coef c\<bar> \<or> expo c = Etiny))"
  using dec_add_error [OF assms [unfolded dec_sub_def]] by simp

text \<open>Three cent amounts, each within half a cent of its source.\<close>

lemma cents_conservation:
  fixes F T I :: rat
  assumes qf: "\<bar>of_int Mf / 100 - F\<bar> \<le> 1 / 200"
    and qt: "\<bar>of_int Mt / 100 - T\<bar> \<le> 1 / 200"
    and qi: "\<bar>of_int Mi / 100 - I\<bar> + \<bar>I - (F - T)\<bar> < 1 / 100"
  shows "\<bar>of_int Mf / 100 - (of_int Mt / 100 + of_int Mi / 100)\<bar> \<le> (1::rat) / 100"
proof -
  have "\<bar>of_int Mf / 100 - (of_int Mt / 100 + of_int Mi / 100)\<bar> < (2::rat) / 100"
    using qf qt qi by linarith
  then have "\<bar>(of_int (Mf - (Mt + Mi)) :: rat)\<bar> < 2"
    by (simp add: field_simps abs_if split: if_splits)
  then have "\<bar>Mf - (Mt + Mi)\<bar> < 2"
    by (metis of_int_abs of_int_less_iff of_int_numeral)
  then have "\<bar>Mf - (Mt + Mi)\<bar> \<le> 1" by simp
  then have "\<bar>(of_int (Mf - (Mt + Mi)) :: rat)\<bar> \<le> 1"
    by (metis of_int_abs of_int_le_iff of_int_1)
  then show ?thesis by (simp add: field_simps abs_if split: if_splits)
qed


lemma of_int_p10_eq:
  assumes "(of_int m :: rat) * 10 powi e = of_int A * 10 powi g" "e \<le> g"
  shows "m = A * 10 ^ nat (g - e)"
proof -
  have "(10::rat) powi g = 10 powi (e + int (nat (g - e)))" using assms(2) by simp
  also have "\<dots> = 10 powi e * 10 ^ nat (g - e)" by (rule p10_add)
  finally have "(of_int m :: rat) * 10 powi e = of_int (A * 10 ^ nat (g - e)) * 10 powi e"
    using assms(1) by simp
  then have "(of_int m :: rat) = of_int (A * 10 ^ nat (g - e))" by simp
  then show ?thesis by (simp only: of_int_eq_iff)
qed

lemma dec_fix_exact_grid:
  assumes fx: "dec_fix d = Inr d'"
    and v: "val d = of_int A * 10 powi g" and A: "\<bar>A\<bar> < 10 ^ 28" and g: "Etiny \<le> g"
  shows "val d' = val d"
proof -
  obtain m e where d: "d = Dec m e" by (cases d)
  from v have eq: "(of_int m :: rat) * 10 powi e = of_int A * 10 powi g"
    by (simp add: d val_Dec)
  show ?thesis
  proof (cases "e \<le> g")
    case True
    from of_int_p10_eq [OF eq True] have m: "m = A * 10 ^ nat (g - e)" .
    from True g have "Etiny \<le> e + int (nat (g - e))" by simp
    from dec_fix_exact_val [OF fx [unfolded d] m A this] show ?thesis by (simp add: d)
  next
    case False
    then have ge: "g \<le> e" by simp
    from of_int_p10_eq [OF eq [symmetric] ge] have "A = m * 10 ^ nat (e - g)" .
    then have "\<bar>A\<bar> = \<bar>m\<bar> * 10 ^ nat (e - g)" by (simp add: abs_mult)
    moreover have "\<bar>m\<bar> * 1 \<le> \<bar>m\<bar> * 10 ^ nat (e - g)"
      by (intro mult_left_mono) simp_all
    ultimately have "\<bar>m\<bar> < 10 ^ 28" using A by simp
    moreover have "m = m * 10 ^ 0" by simp
    moreover have "Etiny \<le> e + int 0" using False g by simp
    ultimately show ?thesis
      using dec_fix_exact_val [OF fx [unfolded d], of m 0] by (simp add: d)
  qed
qed

lemma dec_add_exact:
  assumes "dec_add a b = Inr c"
    and "val a + val b = of_int A * 10 powi g" "\<bar>A\<bar> < 10 ^ 28" "Etiny \<le> g"
  shows "val c = val a + val b"
  using dec_fix_exact_grid [OF assms(1) [unfolded dec_add_def Let_def], of A g] assms(2-4)
  unfolding dec_add_exact_sum by simp

lemma dec_mul_exact_prod: "val (Dec (coef a * coef b) (expo a + expo b)) = val a * val b"
  by (simp add: val_powi power_int_add)

lemma dec_mul_exact:
  assumes "dec_mul a b = Inr c"
    and "val a * val b = of_int A * 10 powi g" "\<bar>A\<bar> < 10 ^ 28" "Etiny \<le> g"
  shows "val c = val a * val b"
  using dec_fix_exact_grid [OF assms(1) [unfolded dec_mul_def], of A g] assms(2-4)
  unfolding dec_mul_exact_prod by simp

text \<open>Padding a coefficient with zeros does not change the rounded result.\<close>

lemma round_half_even_pad: "round_half_even (m * 10 ^ j) (k + j) = round_half_even m k"
proof -
  have d: "(m * 10 ^ j) div 10 ^ (k + j) = m div 10 ^ k"
    by (simp add: power_add)
  have r: "(m * 10 ^ j) mod 10 ^ (k + j) = (m mod 10 ^ k) * 10 ^ j"
    by (simp add: power_add)
  have c1: "(10::int) ^ (k + j) < 2 * ((m mod 10 ^ k) * 10 ^ j) \<longleftrightarrow> 10 ^ k < 2 * (m mod 10 ^ k)"
  proof -
    have "(10::int) ^ (k + j) < 2 * ((m mod 10 ^ k) * 10 ^ j)
        \<longleftrightarrow> 10 ^ k * 10 ^ j < (2 * (m mod 10 ^ k)) * 10 ^ j"
      by (simp add: power_add mult.assoc)
    also have "\<dots> \<longleftrightarrow> 10 ^ k < 2 * (m mod 10 ^ k)"
      by (rule mult_less_cancel_right_pos) simp
    finally show ?thesis .
  qed
  have c2: "2 * ((m mod 10 ^ k) * 10 ^ j) = (10::int) ^ (k + j) \<longleftrightarrow> 2 * (m mod 10 ^ k) = 10 ^ k"
  proof -
    have "2 * ((m mod 10 ^ k) * 10 ^ j) = (10::int) ^ (k + j)
        \<longleftrightarrow> (2 * (m mod 10 ^ k)) * 10 ^ j = 10 ^ k * 10 ^ j"
      by (simp add: power_add mult.assoc)
    also have "\<dots> \<longleftrightarrow> 2 * (m mod 10 ^ k) = 10 ^ k"
      by (simp only: mult_cancel_right) simp
    finally show ?thesis .
  qed
  show ?thesis
    unfolding round_half_even_def Let_def d r c1 c2 ..
qed

lemma ndigits_pad:
  assumes "0 < m"
  shows "ndigits (m * 10 ^ j) = ndigits m + int j"
proof -
  define n where "n = nat (ndigits m - 1)"
  have n1: "1 \<le> ndigits m" by (rule ndigits_pos)
  then have nd: "ndigits m = int n + 1" by (simp add: n_def)
  have nn: "nat (ndigits m) = n + 1" using n1 by (simp add: n_def)
  from ndigits_bounds [OF assms] have lo: "10 ^ n \<le> m" and hi: "m < 10 ^ (n + 1)"
    unfolding n_def [symmetric] nn by blast+
  have "10 ^ (n + j) \<le> m * 10 ^ j" using lo by (simp add: power_add)
  then have a: "int (n + j) < ndigits (m * 10 ^ j)" by (rule ndigits_gt)
  have "m * 10 ^ j < 10 ^ (n + 1 + j)" using hi by (simp add: power_add)
  then have b: "ndigits (m * 10 ^ j) \<le> int (n + 1 + j)" by (rule ndigits_le) simp
  from a b show ?thesis by (simp add: nd)
qed


lemma val_pad: "val (Dec (m * 10 ^ j) (e - int j)) = val (Dec m e)"
proof -
  have "(10::rat) powi e = 10 powi (e - int j + int j)" by simp
  also have "\<dots> = 10 powi (e - int j) * 10 ^ j" by (rule p10_add)
  finally show ?thesis by (simp add: val_Dec)
qed

lemma dec_fix_pad:
  assumes f1: "dec_fix (Dec m e) = Inr r1"
    and f2: "dec_fix (Dec (m * 10 ^ j) (e - int j)) = Inr r2"
  shows "val r1 = val r2"
proof (cases "m = 0")
  case True
  from f1 True have "val r1 = 0" by (cases rule: dec_fix_cases) (simp_all add: val_Dec)
  moreover from f2 True have "val r2 = 0"
    by (cases rule: dec_fix_cases) (simp_all add: val_Dec)
  ultimately show ?thesis by simp
next
  case mnz: False
  have ab: "\<bar>m * 10 ^ j\<bar> = \<bar>m\<bar> * 10 ^ j" by (simp add: abs_mult)
  have nd: "ndigits \<bar>m * 10 ^ j\<bar> = ndigits \<bar>m\<bar> + int j"
    unfolding ab using mnz by (intro ndigits_pad) simp
  have sg: "sgn (m * 10 ^ j) = sgn m" by (simp add: sgn_mult)
  have em: "max (ndigits \<bar>m * 10 ^ j\<bar> + (e - int j) - 28) Etiny - (e - int j)
      = max (ndigits \<bar>m\<bar> + e - 28) Etiny - e + int j"
    unfolding nd by simp
  have rr: "round_half_even \<bar>m * 10 ^ j\<bar> k2 = round_half_even \<bar>m\<bar> k1"
    if "int k2 = int k1 + int j" for k1 k2
  proof -
    from that have "k2 = k1 + j" by simp
    then show ?thesis unfolding ab by (simp add: round_half_even_pad)
  qed
  from f1 show ?thesis
  proof (cases rule: dec_fix_cases)
    case zero
    with mnz show ?thesis by simp
  next
    case same
    then have "\<bar>m\<bar> < 10 ^ 28" by (intro abs_less_pow_of_ndigits)
    moreover have "Etiny \<le> e - int j + int j" using same by simp
    ultimately have "val r2 = val (Dec (m * 10 ^ j) (e - int j))"
      using dec_fix_exact_val [OF f2, of m j] by simp
    with same show ?thesis by (simp add: val_pad)
  next
    case (round k1)
    from f2 show ?thesis
    proof (cases rule: dec_fix_cases)
      case zero
      with mnz show ?thesis by simp
    next
      case same
      with round(2,3) nd show ?thesis by simp
    next
      case (round k2)
      from round(3) \<open>int k1 = _\<close> em have k: "int k2 = int k1 + int j" by simp
      from rr [OF k] round(5) \<open>r1 = _\<close> sg k show ?thesis by simp
    next
      case (carry k2)
      from carry(3) \<open>int k1 = _\<close> em have k: "int k2 = int k1 + int j" by simp
      from rr [OF k] carry(4) \<open>round_half_even \<bar>m\<bar> k1 < _\<close> show ?thesis by simp
    qed
  next
    case (carry k1)
    from f2 show ?thesis
    proof (cases rule: dec_fix_cases)
      case zero
      with mnz show ?thesis by simp
    next
      case same
      with carry(2,3) nd show ?thesis by simp
    next
      case (round k2)
      from round(3) \<open>int k1 = _\<close> em have k: "int k2 = int k1 + int j" by simp
      from rr [OF k] round(4) \<open>round_half_even \<bar>m\<bar> k1 = _\<close> show ?thesis by simp
    next
      case (carry k2)
      from carry(3) \<open>int k1 = _\<close> em have k: "int k2 = int k1 + int j" by simp
      from carry(5) \<open>r1 = _\<close> sg k show ?thesis by simp
    qed
  qed
qed

text \<open>The rounded result depends on the value only.\<close>

lemma dec_fix_val_cong:
  assumes v: "val d1 = val d2" and f1: "dec_fix d1 = Inr r1" and f2: "dec_fix d2 = Inr r2"
  shows "val r1 = val r2"
proof -
  obtain m1 e1 where d1: "d1 = Dec m1 e1" by (cases d1)
  obtain m2 e2 where d2: "d2 = Dec m2 e2" by (cases d2)
  from v have eq: "(of_int m1 :: rat) * 10 powi e1 = of_int m2 * 10 powi e2"
    by (simp add: d1 d2 val_Dec)
  show ?thesis
  proof (cases "e2 \<le> e1")
    case True
    from of_int_p10_eq [OF eq [symmetric] True] have m2: "m2 = m1 * 10 ^ nat (e1 - e2)" .
    have e2: "e2 = e1 - int (nat (e1 - e2))" using True by simp
    from f2 have "dec_fix (Dec (m1 * 10 ^ nat (e1 - e2)) (e1 - int (nat (e1 - e2)))) = Inr r2"
      unfolding d2 m2 using e2 by simp
    with f1 [unfolded d1] show ?thesis by (rule dec_fix_pad)
  next
    case False
    then have le: "e1 \<le> e2" by simp
    from of_int_p10_eq [OF eq le] have m1: "m1 = m2 * 10 ^ nat (e2 - e1)" .
    have e1: "e1 = e2 - int (nat (e2 - e1))" using le by simp
    from f1 have "dec_fix (Dec (m2 * 10 ^ nat (e2 - e1)) (e2 - int (nat (e2 - e1)))) = Inr r1"
      unfolding d1 m1 using e1 by simp
    with f2 [unfolded d2] have "val r2 = val r1" by (rule dec_fix_pad)
    then show ?thesis by simp
  qed
qed

lemma dec_add_val_cong:
  assumes "val a = val a'" "val b = val b'" "dec_add a b = Inr c" "dec_add a' b' = Inr c'"
  shows "val c = val c'"
proof (rule dec_fix_val_cong)
  show "dec_fix (Dec (coef a * 10 ^ nat (expo a - min (expo a) (expo b))
            + coef b * 10 ^ nat (expo b - min (expo a) (expo b))) (min (expo a) (expo b))) = Inr c"
    using assms(3) by (simp add: dec_add_def Let_def)
  show "dec_fix (Dec (coef a' * 10 ^ nat (expo a' - min (expo a') (expo b'))
            + coef b' * 10 ^ nat (expo b' - min (expo a') (expo b'))) (min (expo a') (expo b'))) = Inr c'"
    using assms(4) by (simp add: dec_add_def Let_def)
  show "val (Dec (coef a * 10 ^ nat (expo a - min (expo a) (expo b))
            + coef b * 10 ^ nat (expo b - min (expo a) (expo b))) (min (expo a) (expo b)))
      = val (Dec (coef a' * 10 ^ nat (expo a' - min (expo a') (expo b'))
            + coef b' * 10 ^ nat (expo b' - min (expo a') (expo b'))) (min (expo a') (expo b')))"
    unfolding dec_add_exact_sum using assms(1,2) by simp
qed


section \<open>Facts about the loops\<close>

lemma dec_fix_representable: "dec_fix d = Inr d' \<Longrightarrow> representable d'"
  unfolding representable_def by (intro conjI dec_fix_coef_bound dec_fix_expo_lower)

lemma dec_add_representable: "dec_add a b = Inr c \<Longrightarrow> representable c"
  unfolding dec_add_def Let_def by (rule dec_fix_representable)

lemma val_zero: "coef z = 0 \<Longrightarrow> val z = 0"
  by (simp add: val_powi)

lemma dec_fix_zero: "dec_fix (Dec 0 e) = Inr z \<Longrightarrow> coef z = 0"
  by (auto simp: dec_fix_def)

lemma dec_mul_zero: "coef b = 0 \<Longrightarrow> dec_mul a b = Inr c \<Longrightarrow> coef c = 0"
  by (auto simp: dec_mul_def dest: dec_fix_zero)

lemma dec_div_zero: "coef a = 0 \<Longrightarrow> dec_div a b = Inr c \<Longrightarrow> coef c = 0"
  by (auto simp: dec_div_def dest: dec_fix_zero split: if_splits)

lemma dec_add_zero_right:
  assumes "coef z = 0" "representable a" "dec_add a z = Inr c"
  shows "val c = val a"
proof -
  have "val a + val z = of_int (coef a) * 10 powi (expo a)"
    using assms(1) by (simp add: val_zero val_powi)
  from dec_add_exact [OF assms(3) this] assms(1,2) show ?thesis
    by (simp add: representable_def val_zero)
qed

lemma year_end_contribution_skip:
  assumes "\<not> (freq \<in> set [''quarterly'', ''yearly''] \<and> 0 < coef mp)"
  shows "year_end_contribution freq mp s = Inr s"
  unfolding year_end_contribution_def using assms by (rule if_not_P)

lemma year_end_contribution_add:
  assumes "freq \<in> set [''quarterly'', ''yearly''] \<and> 0 < coef mp"
    and "year_end_contribution freq mp s = Inr s'"
  obtains ac c yc tc where
    "dec_mul mp (Dec 12 0) = Inr ac"
    "dec_add (current_amount s) ac = Inr c"
    "dec_add (year_contributions s) ac = Inr yc"
    "dec_add (total_contributions_acc s) ac = Inr tc"
    "s' = s\<lparr>current_amount := c, year_contributions := yc, total_contributions_acc := tc\<rparr>"
proof -
  from assms(1) have "year_end_contribution freq mp s =
        err_bind (dec_mul mp (Dec 12 0)) (\<lambda>annual_contribution.
        err_bind (dec_add (current_amount s) annual_contribution) (\<lambda>c.
        err_bind (dec_add (year_contributions s) annual_contribution) (\<lambda>yc.
        err_bind (dec_add (total_contributions_acc s) annual_contribution) (\<lambda>tc.
          Inr (s\<lparr>current_amount := c, year_contributions := yc,
                   total_contributions_acc := tc\<rparr>)))))"
    unfolding year_end_contribution_def by (rule if_P)
  with assms(2) have "\<exists>ac c yc tc. dec_mul mp (Dec 12 0) = Inr ac \<and>
        dec_add (current_amount s) ac = Inr c \<and>
        dec_add (year_contributions s) ac = Inr yc \<and>
        dec_add (total_contributions_acc s) ac = Inr tc \<and>
        s' = s\<lparr>current_amount := c, year_contributions := yc,
                 total_contributions_acc := tc\<rparr>"
    by (simp only: err_bind_Inr) blast
  with that show ?thesis by blast
qed

lemma monthly_contribution_skip:
  assumes "\<not> (freq = ''monthly'' \<and> 0 < coef mp)"
  shows "monthly_contribution freq mp s = Inr s"
  unfolding monthly_contribution_def using assms by (rule if_not_P)

lemma monthly_contribution_add:
  assumes "freq = ''monthly'' \<and> 0 < coef mp"
    and "monthly_contribution freq mp s = Inr s1"
  obtains c yc tc where
    "dec_add (current_amount s) mp = Inr c"
    "dec_add (year_contributions s) mp = Inr yc"
    "dec_add (total_contributions_acc s) mp = Inr tc"
    "s1 = s\<lparr>current_amount := c, year_contributions := yc, total_contributions_acc := tc\<rparr>"
proof -
  from assms(1) have "monthly_contribution freq mp s =
          err_bind (dec_add (current_amount s) mp) (\<lambda>c.
          err_bind (dec_add (year_contributions s) mp) (\<lambda>yc.
          err_bind (dec_add (total_contributions_acc s) mp) (\<lambda>tc.
            Inr (s\<lparr>current_amount := c, year_contributions := yc,
                     total_contributions_acc := tc\<rparr>))))"
    unfolding monthly_contribution_def by (rule if_P)
  with assms(2) have "\<exists>c yc tc. dec_add (current_amount s) mp = Inr c \<and>
        dec_add (year_contributions s) mp = Inr yc \<and>
        dec_add (total_contributions_acc s) mp = Inr tc \<and>
        s1 = s\<lparr>current_amount := c, year_contributions := yc,
                 total_contributions_acc := tc\<rparr>"
    by (simp only: err_bind_Inr) blast
  with that show ?thesis by blast
qed

lemma period_body_Inr:
  assumes "period_body freq mp rate s = Inr s'"
  obtains s1 pi c yi where
    "monthly_contribution freq mp s = Inr s1"
    "dec_mul (current_amount s1) rate = Inr pi"
    "dec_add (current_amount s1) pi = Inr c"
    "dec_add (year_interest s1) pi = Inr yi"
    "s' = s1\<lparr>current_amount := c, year_interest := yi\<rparr>"
proof -
  from assms have "\<exists>s1 pi c yi. monthly_contribution freq mp s = Inr s1 \<and>
      dec_mul (current_amount s1) rate = Inr pi \<and>
      dec_add (current_amount s1) pi = Inr c \<and>
      dec_add (year_interest s1) pi = Inr yi \<and>
      s' = s1\<lparr>current_amount := c, year_interest := yi\<rparr>"
    unfolding period_body_def
    by (simp only: err_bind_Inr) blast
  with that show ?thesis by blast
qed

lemma period_body_tracks:
  assumes z: "coef rate = 0" and p: "period_body freq mp rate s = Inr s'" and t: "tracks s"
  shows "tracks s'"
proof -
  from p obtain s1 pi c yi where
    s1: "monthly_contribution freq mp s = Inr s1"
    and pi: "dec_mul (current_amount s1) rate = Inr pi"
    and c: "dec_add (current_amount s1) pi = Inr c"
    and "dec_add (year_interest s1) pi = Inr yi"
    and s': "s' = s1\<lparr>current_amount := c, year_interest := yi\<rparr>"
    by (rule period_body_Inr)
  have t1: "tracks s1"
  proof (cases "freq = ''monthly'' \<and> 0 < coef mp")
    case False
    from monthly_contribution_skip [OF False, of s] s1 have "s1 = s" by simp
    with t show ?thesis by simp
  next
    case True
    from True s1 obtain c1 yc tc where
      c1: "dec_add (current_amount s) mp = Inr c1"
      and "dec_add (year_contributions s) mp = Inr yc"
      and tc: "dec_add (total_contributions_acc s) mp = Inr tc"
      and e: "s1 = s\<lparr>current_amount := c1, year_contributions := yc,
                     total_contributions_acc := tc\<rparr>"
      by (rule monthly_contribution_add)
    have v: "val (current_amount s) = val (total_contributions_acc s)"
      using t by (simp add: tracks_def)
    have "val c1 = val tc"
      by (rule dec_add_val_cong [OF v refl c1 tc])
    with dec_add_representable [OF c1] show ?thesis by (simp add: tracks_def e)
  qed
  have "coef pi = 0" using z pi by (rule dec_mul_zero)
  moreover have "representable (current_amount s1)" using t1 by (simp add: tracks_def)
  ultimately have "val c = val (current_amount s1)"
    using c by (rule dec_add_zero_right)
  with t1 dec_add_representable [OF c] show ?thesis by (simp add: tracks_def s')
qed

lemma run_periods_tracks:
  assumes "coef rate = 0" "run_periods n freq mp rate s = Inr s'" "tracks s"
  shows "tracks s'"
  using assms(2,3)
proof (induction n arbitrary: s)
  case 0
  then show ?case by simp
next
  case (Suc n)
  from Suc.prems(1) obtain s1 where
    "period_body freq mp rate s = Inr s1" "run_periods n freq mp rate s1 = Inr s'"
    by (auto simp: err_bind_Inr)
  with Suc.IH period_body_tracks [OF assms(1) _ Suc.prems(2)] show ?case by blast
qed

lemma year_end_contribution_tracks:
  assumes p: "year_end_contribution freq mp s = Inr s'" and t: "tracks s"
  shows "tracks s'"
proof (cases "freq \<in> set [''quarterly'', ''yearly''] \<and> 0 < coef mp")
  case False
  from year_end_contribution_skip [OF False, of s] p have "s' = s" by simp
  with t show ?thesis by simp
next
  case True
  from True p obtain ac c yc tc where
    "dec_mul mp (Dec 12 0) = Inr ac"
    and c: "dec_add (current_amount s) ac = Inr c"
    and "dec_add (year_contributions s) ac = Inr yc"
    and tc: "dec_add (total_contributions_acc s) ac = Inr tc"
    and e: "s' = s\<lparr>current_amount := c, year_contributions := yc,
                   total_contributions_acc := tc\<rparr>"
    by (rule year_end_contribution_add)
  have v: "val (current_amount s) = val (total_contributions_acc s)"
    using t by (simp add: tracks_def)
  have "val c = val tc"
    by (rule dec_add_val_cong [OF v refl c tc])
  with dec_add_representable [OF c] show ?thesis by (simp add: tracks_def e)
qed

lemma year_body_tracks:
  assumes z: "coef rate = 0" and p: "year_body freq mp rate n y s = Inr s'" and t: "tracks s"
  shows "tracks s'"
proof -
  from p obtain s1 s2 entry where
    s1: "run_periods n freq mp rate
           (s\<lparr>year_contributions := Dec 0 0, year_interest := Dec 0 0\<rparr>) = Inr s1"
    and s2: "year_end_contribution freq mp s1 = Inr s2"
    and e: "s' = s2\<lparr>breakdown_acc := breakdown_acc s2 @ [entry]\<rparr>"
    unfolding year_body_def Let_def err_bind_Inr by auto
  from t have "tracks (s\<lparr>year_contributions := Dec 0 0, year_interest := Dec 0 0\<rparr>)"
    by (simp add: tracks_def)
  from run_periods_tracks [OF z s1 this] have "tracks s1" .
  from year_end_contribution_tracks [OF s2 this] show ?thesis by (simp add: tracks_def e)
qed

lemma run_years_tracks:
  assumes "coef rate = 0" "run_years freq mp rate n ys s = Inr s'" "tracks s"
  shows "tracks s'"
  using assms(2,3)
proof (induction ys arbitrary: s)
  case Nil
  then show ?case by simp
next
  case (Cons y ys)
  from Cons.prems(1) obtain s1 where
    "year_body freq mp rate n y s = Inr s1" "run_years freq mp rate n ys s1 = Inr s'"
    by (auto simp: err_bind_Inr)
  with Cons.IH year_body_tracks [OF assms(1) _ Cons.prems(2)] show ?case by blast
qed

lemma rate_per_period_zero:
  assumes "coef a = 0" "rate_per_period freq a = Inr rt"
  shows "coef rt = 0"
  using assms by (auto simp: rate_per_period_def dest: dec_div_zero split: if_splits)


section \<open>Validation\<close>

lemma val_Dec_simps:
  "val (Dec m 0) = of_int m"
  "val (Dec m (- 1)) = of_int m / 10"
  "val (Dec m (- 2)) = of_int m / 100"
  by (simp_all add: val_def)

text \<open>
  When no amount is NaN, the list is empty exactly within the bounds.
\<close>

lemma validate_request_empty_iff:
  "validate_request r = [] \<longleftrightarrow>
     \<not> float_le (raw_principal r) 0 \<and> \<not> float_gt (raw_principal r) 10000000 \<and>
     \<not> float_le (raw_annual_rate r) 0 \<and> \<not> float_gt (raw_annual_rate r) 20 \<and>
     0 < raw_years r \<and> raw_years r \<le> 50 \<and>
     \<not> float_lt (raw_monthly_payment r) 0 \<and> \<not> float_gt (raw_monthly_payment r) 50000"
  by (auto simp: validate_request_def)

text \<open>
  Claim C10 fails on a NaN amount. \<open>validate_request\<close> tests each amount with the
  comparison that makes it an error (\<open><= 0\<close>, \<open>> 10_000_000\<close>, ...); every comparison
  with NaN is false, so a request whose principal is NaN gets the empty list although
  the principal is not within \<open>0 < principal \<le> 10000000\<close>.
\<close>

theorem nan_passes_validation_example:
  "validate_request nan_principal_example = [] \<and>
   \<not> float_gt (raw_principal nan_principal_example) 0 \<and>
   \<not> float_le (raw_principal nan_principal_example) 10000000"
  by (simp add: validate_request_def nan_principal_example_def)

text \<open>
  Claim C8 fails on the request of \<open>test_zero_interest_rate\<close> (\<open>annual_rate=0.0\<close>, every
  other field in range): \<open>validate_request\<close> reports "rate must be greater than 0", and
  the field constraint \<open>gt=0\<close> of the request model rejects the request.
\<close>

theorem zero_rate_rejected_example:
  "validate_request zero_rate_test_floats = [RateNotPositive] \<and>
   \<not> request_model_accepts zero_rate_test_request"
  by (simp add: validate_request_def zero_rate_test_floats_def zero_rate_test_request_def
      request_model_accepts_def val_Dec_simps)


section \<open>The calculation on the example requests\<close>

lemma yearly_example_result:
  "calculate_compound_interest pow_one clock_a yearly_example =
     Inr \<lparr>final_amount = Dec 1640000 (- 2), total_contributions = Dec 1600000 (- 2),
          total_interest = Dec 40000 (- 2), annual_return = Dec 250 (- 2),
          yearly_breakdown =
            [\<lparr>year = 1, start_amount = Dec 1000000 (- 2), contributions = Dec 600000 (- 2),
              interest = Dec 40000 (- 2), end_amount = Dec 1640000 (- 2),
              growth_rate = Dec 6400 (- 2)\<rparr>],
          calculation_time = clock_a\<rparr>"
  by code_simp


section \<open>Determinism\<close>




section \<open>Rounding the interest to cents\<close>

lemma interest_cents_close:
  assumes sub: "dec_sub f t = Inr ti" and q: "quantize2 ti = Inr qi"
  shows "\<bar>val qi - val ti\<bar> + \<bar>val ti - (val f - val t)\<bar> < 1 / 100"
proof -
  have qe: "\<bar>val qi - val ti\<bar> \<le> 1 / 200" using q by (rule quantize2_err)
  from dec_sub_error [OF sub] show ?thesis
  proof
    assume "val ti = val f - val t"
    with qe show ?thesis by simp
  next
    assume r: "\<bar>val ti - (val f - val t)\<bar> \<le> 10 powi expo ti / 2 \<and>
      (10 ^ 27 \<le> \<bar>coef ti\<bar> \<or> expo ti = Etiny)"
    show ?thesis
    proof (cases "expo ti \<le> - 3")
      case True
      then have "(10::rat) powi expo ti \<le> 10 powi (- 3)"
        by (intro power_int_increasing) simp_all
      then have "(10::rat) powi expo ti / 2 \<le> 1 / 2000" by simp
      with r qe show ?thesis by linarith
    next
      case False
      then have ge: "- 2 \<le> expo ti" by simp
      with q have ex: "val qi = val ti" by (simp add: quantize2_exact)
      have "expo ti = - 2"
      proof (rule ccontr)
        assume "expo ti \<noteq> - 2"
        with ge have hi: "- 1 \<le> expo ti" by simp
        then have "expo ti \<noteq> Etiny" by (simp add: Etiny_def Emin_def prec_def)
        with r have big: "10 ^ 27 \<le> \<bar>coef ti\<bar>" by simp
        then have nz: "coef ti \<noteq> 0" by auto
        from big have "int 27 < ndigits \<bar>coef ti\<bar>" by (rule ndigits_gt)
        moreover from quantize2_cases [of "coef ti" "expo ti" qi] q nz
        have "ndigits \<bar>coef ti\<bar> + expo ti \<le> 26" by simp
        ultimately show False using hi by simp
      qed
      then have "(10::rat) powi expo ti / 2 = 1 / 200" by simp
      with r ex show ?thesis by simp
    qed
  qed
qed


section \<open>Zero years and unknown frequencies\<close>










section \<open>Growth rate\<close>

text \<open>
  Claim C6 on the example request (10000 at 4 percent, yearly, 500 a month): the year's
  interest is 400.00 on a start amount of 10000.00, which is 4 percent; the returned
  \<open>growth_rate\<close> is 64.00, because its numerator is the end amount minus the start
  amount and so includes the 6000.00 of contributions.
\<close>

theorem growth_rate_counts_contributions_example:
  "yearly_breakdown (projr (calculate_compound_interest pow_one clock_a yearly_example)) =
     [\<lparr>year = 1, start_amount = Dec 1000000 (- 2), contributions = Dec 600000 (- 2),
       interest = Dec 40000 (- 2), end_amount = Dec 1640000 (- 2),
       growth_rate = Dec 6400 (- 2)\<rparr>] \<and>
   val (Dec 6400 (- 2)) = 64 \<and>
   val (Dec 40000 (- 2)) / val (Dec 1000000 (- 2)) * 100 = 4"
  unfolding yearly_example_result by (simp add: val_Dec_simps)

section \<open>The period loop without contributions\<close>

lemma run_periods_accrue:
  assumes "freq \<noteq> ''monthly''"
  shows "run_periods n freq mp rate s =
     map_sum id (\<lambda>(c, yi). s\<lparr>current_amount := c, year_interest := yi\<rparr>)
       (accrue n rate (current_amount s) (year_interest s))"
proof (induction n arbitrary: s)
  case 0
  show ?case by simp
next
  case (Suc n)
  show ?case
    using assms
    by (simp add: period_body_def monthly_contribution_def Suc err_bind_def split: sum.splits)
qed


section \<open>Total contributions\<close>

text \<open>
  While the sums stay on a grid that the context holds exactly, every addition to
  \<open>total_contributions\<close> is exact.
\<close>

lemma monthly_contribution_total:
  assumes s1: "monthly_contribution freq mp s = Inr s1"
    and A: "val (total_contributions_acc s) = of_int A * 10 powi g"
    and M: "val mp = of_int M * 10 powi g"
    and fit: "\<bar>A\<bar> + M < 10 ^ 28" "0 \<le> M" "Etiny \<le> g"
  shows "val (total_contributions_acc s1) =
    of_int (A + (if freq = ''monthly'' \<and> 0 < coef mp then M else 0)) * 10 powi g"
proof (cases "freq = ''monthly'' \<and> 0 < coef mp")
  case False
  from monthly_contribution_skip [OF False, of s] s1 have "s1 = s" by simp
  with False A show ?thesis by auto
next
  case True
  from True s1 obtain c yc tc where
    "dec_add (current_amount s) mp = Inr c"
    and "dec_add (year_contributions s) mp = Inr yc"
    and tc: "dec_add (total_contributions_acc s) mp = Inr tc"
    and e: "s1 = s\<lparr>current_amount := c, year_contributions := yc,
                   total_contributions_acc := tc\<rparr>"
    by (rule monthly_contribution_add)
  have sum: "val (total_contributions_acc s) + val mp = of_int (A + M) * 10 powi g"
    unfolding A M by (simp add: algebra_simps)
  have "\<bar>A + M\<bar> < 10 ^ 28" using fit by linarith
  from dec_add_exact [OF tc sum this fit(3)] sum True show ?thesis by (simp add: e)
qed

lemma period_body_total:
  assumes p: "period_body freq mp rate s = Inr s'"
    and A: "val (total_contributions_acc s) = of_int A * 10 powi g"
    and M: "val mp = of_int M * 10 powi g"
    and fit: "\<bar>A\<bar> + M < 10 ^ 28" "0 \<le> M" "Etiny \<le> g"
  shows "val (total_contributions_acc s') =
    of_int (A + (if freq = ''monthly'' \<and> 0 < coef mp then M else 0)) * 10 powi g"
proof -
  from p obtain s1 pi c yi where
    s1: "monthly_contribution freq mp s = Inr s1"
    and "dec_mul (current_amount s1) rate = Inr pi"
    and "dec_add (current_amount s1) pi = Inr c"
    and "dec_add (year_interest s1) pi = Inr yi"
    and s': "s' = s1\<lparr>current_amount := c, year_interest := yi\<rparr>"
    by (rule period_body_Inr)
  from monthly_contribution_total [OF s1 A M fit] show ?thesis by (simp add: s')
qed

lemma run_periods_total:
  assumes M: "val mp = of_int M * 10 powi g" and M0: "0 \<le> M" and g: "Etiny \<le> g"
  shows "run_periods n freq mp rate s = Inr s' \<Longrightarrow>
    val (total_contributions_acc s) = of_int A * 10 powi g \<Longrightarrow>
    \<bar>A\<bar> + int n * M < 10 ^ 28 \<Longrightarrow>
    val (total_contributions_acc s') =
      of_int (A + int n * (if freq = ''monthly'' \<and> 0 < coef mp then M else 0)) * 10 powi g"
proof (induction n arbitrary: s A)
  case 0
  then show ?case by simp
next
  case (Suc n)
  define u where "u = (if freq = ''monthly'' \<and> 0 < coef mp then M else 0)"
  have u: "0 \<le> u" "u \<le> M" using M0 by (simp_all add: u_def)
  from Suc.prems(1) obtain s1 where
    s1: "period_body freq mp rate s = Inr s1" and r: "run_periods n freq mp rate s1 = Inr s'"
    by (auto simp: err_bind_Inr)
  have nM: "0 \<le> int n * M" using M0 by simp
  have f1: "\<bar>A\<bar> + M < 10 ^ 28" using Suc.prems(3) nM by (simp add: algebra_simps)
  from period_body_total [OF s1 Suc.prems(2) M f1 M0 g]
  have A1: "val (total_contributions_acc s1) = of_int (A + u) * 10 powi g"
    by (simp add: u_def)
  have "\<bar>A + u\<bar> + int n * M \<le> \<bar>A\<bar> + M + int n * M" using u by linarith
  also have "\<dots> < 10 ^ 28" using Suc.prems(3) by (simp add: algebra_simps)
  finally have f2: "\<bar>A + u\<bar> + int n * M < 10 ^ 28" .
  from Suc.IH [OF r A1 f2] show ?case
    unfolding u_def [symmetric] by (simp add: algebra_simps)
qed

lemma year_end_contribution_total:
  assumes p: "year_end_contribution freq mp s = Inr s'"
    and A: "val (total_contributions_acc s) = of_int A * 10 powi g"
    and M: "val mp = of_int M * 10 powi g"
    and fit: "\<bar>A\<bar> + 12 * M < 10 ^ 28" "0 \<le> M" "Etiny \<le> g"
  shows "val (total_contributions_acc s') =
    of_int (A + (if freq \<in> set [''quarterly'', ''yearly''] \<and> 0 < coef mp then 12 * M else 0))
      * 10 powi g"
proof (cases "freq \<in> set [''quarterly'', ''yearly''] \<and> 0 < coef mp")
  case False
  from year_end_contribution_skip [OF False, of s] p have "s' = s" by simp
  with False A show ?thesis by auto
next
  case True
  from True p obtain ac c yc tc where
    ac: "dec_mul mp (Dec 12 0) = Inr ac"
    and "dec_add (current_amount s) ac = Inr c"
    and "dec_add (year_contributions s) ac = Inr yc"
    and tc: "dec_add (total_contributions_acc s) ac = Inr tc"
    and e: "s' = s\<lparr>current_amount := c, year_contributions := yc,
                   total_contributions_acc := tc\<rparr>"
    by (rule year_end_contribution_add)
  have prod: "val mp * val (Dec 12 0) = of_int (12 * M) * 10 powi g"
    unfolding M by (simp add: val_Dec)
  have "\<bar>12 * M\<bar> < 10 ^ 28" using fit by linarith
  from dec_mul_exact [OF ac prod this fit(3)] prod
  have vac: "val ac = of_int (12 * M) * 10 powi g" by simp
  have sum: "val (total_contributions_acc s) + val ac = of_int (A + 12 * M) * 10 powi g"
    unfolding A vac by (simp add: algebra_simps)
  have "\<bar>A + 12 * M\<bar> < 10 ^ 28" using fit by linarith
  from dec_add_exact [OF tc sum this fit(3)] sum True show ?thesis by (simp add: e)
qed


lemma run_periods_other:
  assumes "freq \<noteq> ''monthly''" "run_periods n freq mp rate s = Inr s'"
  shows "total_contributions_acc s' = total_contributions_acc s"
  using assms(2) unfolding run_periods_accrue [OF assms(1)]
  by (cases "accrue n rate (current_amount s) (year_interest s)") auto

lemma year_body_Inr:
  assumes "year_body freq mp rate n y s = Inr s'"
  obtains s1 s2 growth entry where
    "run_periods n freq mp rate
       (s\<lparr>year_contributions := Dec 0 0, year_interest := Dec 0 0\<rparr>) = Inr s1"
    "year_end_contribution freq mp s1 = Inr s2"
    "growth_rate_of (current_amount s) (current_amount s2) = Inr growth"
    "breakdown_entry y (current_amount s) (year_contributions s2) (year_interest s2)
       (current_amount s2) growth = Inr entry"
    "s' = s2\<lparr>breakdown_acc := breakdown_acc s2 @ [entry]\<rparr>"
proof -
  from assms have "\<exists>s1 s2 growth entry. run_periods n freq mp rate
       (s\<lparr>year_contributions := Dec 0 0, year_interest := Dec 0 0\<rparr>) = Inr s1 \<and>
    year_end_contribution freq mp s1 = Inr s2 \<and>
    growth_rate_of (current_amount s) (current_amount s2) = Inr growth \<and>
    breakdown_entry y (current_amount s) (year_contributions s2) (year_interest s2)
       (current_amount s2) growth = Inr entry \<and>
    s' = s2\<lparr>breakdown_acc := breakdown_acc s2 @ [entry]\<rparr>"
    unfolding year_body_def Let_def by (simp only: err_bind_Inr) blast
  with that show ?thesis by blast
qed

text \<open>One year adds twelve payments to the total contributions.\<close>

lemma year_body_total:
  assumes p: "year_body freq mp rate (periods_per_year freq) y s = Inr s'"
    and fr: "freq \<in> set allowed_frequencies" and mp0: "0 \<le> coef mp"
    and A: "val (total_contributions_acc s) = of_int A * 10 powi g"
    and M: "val mp = of_int M * 10 powi g"
    and fit: "\<bar>A\<bar> + 12 * M < 10 ^ 28" "0 \<le> M" "Etiny \<le> g"
  shows "val (total_contributions_acc s') = of_int (A + 12 * M) * 10 powi g"
proof -
  from p obtain s1 s2 growth entry where
    s1: "run_periods (periods_per_year freq) freq mp rate
       (s\<lparr>year_contributions := Dec 0 0, year_interest := Dec 0 0\<rparr>) = Inr s1"
    and s2: "year_end_contribution freq mp s1 = Inr s2"
    and "growth_rate_of (current_amount s) (current_amount s2) = Inr growth"
    and "breakdown_entry y (current_amount s) (year_contributions s2) (year_interest s2)
       (current_amount s2) growth = Inr entry"
    and s': "s' = s2\<lparr>breakdown_acc := breakdown_acc s2 @ [entry]\<rparr>"
    by (rule year_body_Inr)
  have M0: "coef mp = 0 \<Longrightarrow> M = 0"
  proof -
    assume "coef mp = 0"
    then have "val mp = 0" by (rule val_zero)
    with M show "M = 0" by simp
  qed
  have A0: "val (total_contributions_acc
      (s\<lparr>year_contributions := Dec 0 0, year_interest := Dec 0 0\<rparr>)) = of_int A * 10 powi g"
    using A by simp
  show ?thesis
  proof (cases "freq = ''monthly''")
    case True
    have "\<bar>A\<bar> + int 12 * M < 10 ^ 28" using fit by simp
    from run_periods_total [OF M fit(2,3) s1 [unfolded True periods_per_year_def, simplified]
        A0 this]
    have "val (total_contributions_acc s1) = of_int (A + 12 * M) * 10 powi g"
      using M0 mp0 by (auto simp: True)
    moreover have "s2 = s1"
      using year_end_contribution_skip [of freq mp s1] s2 True by simp
    ultimately show ?thesis by (simp add: s')
  next
    case False
    from run_periods_other [OF False s1] A
    have A1: "val (total_contributions_acc s1) = of_int A * 10 powi g" by simp
    from fr False have "freq \<in> set [''quarterly'', ''yearly'']"
      by (simp add: allowed_frequencies_def)
    with year_end_contribution_total [OF s2 A1 M fit] M0 mp0
    have "val (total_contributions_acc s2) = of_int (A + 12 * M) * 10 powi g"
      by (cases "coef mp = 0") auto
    then show ?thesis by (simp add: s')
  qed
qed

lemma run_years_total:
  assumes fr: "freq \<in> set allowed_frequencies" and mp0: "0 \<le> coef mp"
    and M: "val mp = of_int M * 10 powi g" and M0: "0 \<le> M" and g: "Etiny \<le> g"
  shows "run_years freq mp rate (periods_per_year freq) ys s = Inr s' \<Longrightarrow>
    val (total_contributions_acc s) = of_int A * 10 powi g \<Longrightarrow>
    \<bar>A\<bar> + 12 * int (length ys) * M < 10 ^ 28 \<Longrightarrow>
    val (total_contributions_acc s') = of_int (A + 12 * int (length ys) * M) * 10 powi g"
proof (induction ys arbitrary: s A)
  case Nil
  then show ?case by simp
next
  case (Cons y ys)
  from Cons.prems(1) obtain s1 where
    s1: "year_body freq mp rate (periods_per_year freq) y s = Inr s1"
    and r: "run_years freq mp rate (periods_per_year freq) ys s1 = Inr s'"
    by (auto simp: err_bind_Inr)
  have nM: "0 \<le> 12 * int (length ys) * M" using M0 by simp
  have f1: "\<bar>A\<bar> + 12 * M < 10 ^ 28" using Cons.prems(3) nM by (simp add: algebra_simps)
  from year_body_total [OF s1 fr mp0 Cons.prems(2) M f1 M0 g]
  have A1: "val (total_contributions_acc s1) = of_int (A + 12 * M) * 10 powi g" .
  have "\<bar>A + 12 * M\<bar> + 12 * int (length ys) * M \<le> \<bar>A\<bar> + 12 * M + 12 * int (length ys) * M"
    using M0 by linarith
  also have "\<dots> < 10 ^ 28" using Cons.prems(3) by (simp add: algebra_simps)
  finally have f2: "\<bar>A + 12 * M\<bar> + 12 * int (length ys) * M < 10 ^ 28" .
  from Cons.IH [OF r A1 f2] show ?case by (simp add: algebra_simps)
qed


lemma val_on_grid:
  assumes "g \<le> expo d"
  shows "val d = of_int (coef d * 10 ^ nat (expo d - g)) * 10 powi g"
proof -
  have "(10::rat) powi expo d = 10 powi (g + int (nat (expo d - g)))" using assms by simp
  also have "\<dots> = 10 powi g * 10 ^ nat (expo d - g)" by (rule p10_add)
  finally show ?thesis by (simp add: val_powi)
qed

lemma val_nonneg_iff: "0 \<le> val d \<longleftrightarrow> 0 \<le> coef d"
proof -
  have pos: "(0::rat) < 10 powi expo d" by simp
  show ?thesis
  proof (cases "0 \<le> coef d")
    case True
    then have "0 \<le> (of_int (coef d) :: rat) * 10 powi expo d"
      by (intro mult_nonneg_nonneg) simp_all
    with True show ?thesis by (simp only: val_powi)
  next
    case False
    then have "(of_int (coef d) :: rat) < 0" by simp
    then have "(of_int (coef d) :: rat) * 10 powi expo d < 0" using pos by (rule mult_neg_pos)
    with False show ?thesis by (simp only: val_powi not_le [symmetric])
  qed
qed

lemma val_eq_0_iff: "val d = 0 \<longleftrightarrow> coef d = 0"
  by (simp add: val_powi)

lemma length_upto_one: "0 \<le> n \<Longrightarrow> int (length [1 .. n]) = n"
  by simp

lemma run_years_total_formula:
  assumes fr: "compound_frequency r \<in> set allowed_frequencies"
    and mp0: "0 \<le> coef (monthly_payment r)"
    and fit: "sums_fit r" and y0: "0 \<le> years r"
    and run: "run_years (compound_frequency r) (monthly_payment r) rate
       (periods_per_year (compound_frequency r)) [1 .. years r] (initial_state r) = Inr s"
  shows "val (total_contributions_acc s) =
    val (principal r) + val (monthly_payment r) * 12 * of_int (years r)"
proof -
  define g where "g = min (expo (principal r)) (expo (monthly_payment r))"
  define A where "A = coef (principal r) * 10 ^ nat (expo (principal r) - g)"
  define M where "M = coef (monthly_payment r) * 10 ^ nat (expo (monthly_payment r) - g)"
  have vp: "val (principal r) = of_int A * 10 powi g"
    unfolding A_def by (rule val_on_grid) (simp add: g_def)
  have vm: "val (monthly_payment r) = of_int M * 10 powi g"
    unfolding M_def by (rule val_on_grid) (simp add: g_def)
  have M0: "0 \<le> M" using mp0 by (simp add: M_def)
  have aA: "\<bar>A\<bar> = \<bar>coef (principal r)\<bar> * 10 ^ nat (expo (principal r) - g)"
    by (simp add: A_def abs_mult)
  have aM: "M = \<bar>coef (monthly_payment r)\<bar> * 10 ^ nat (expo (monthly_payment r) - g)"
    using mp0 by (simp add: M_def)
  from fit have g: "Etiny \<le> g" and b: "\<bar>A\<bar> + 12 * years r * M < 10 ^ 28"
    unfolding sums_fit_def Let_def g_def [symmetric] aA [symmetric] aM [symmetric] by simp_all
  have len: "int (length [1 .. years r]) = years r" using y0 by simp
  have init: "val (total_contributions_acc (initial_state r)) = of_int A * 10 powi g"
    using vp by (simp add: initial_state_def)
  have b': "\<bar>A\<bar> + 12 * int (length [1 .. years r]) * M < 10 ^ 28"
    unfolding len using b .
  from run_years_total [OF fr mp0 vm M0 g run init b']
  have "val (total_contributions_acc s) = of_int (A + 12 * years r * M) * 10 powi g"
    unfolding len .
  then show ?thesis unfolding vp vm by (simp add: algebra_simps)
qed

lemma tiny_example_result:
  "calculate_compound_interest pow_one clock_a tiny_example =
     Inr \<lparr>final_amount = Dec 1 (- 2), total_contributions = Dec 1 (- 2),
          total_interest = Dec 0 (- 2), annual_return = Dec 400 (- 2),
          yearly_breakdown =
            [\<lparr>year = 1, start_amount = Dec 0 (- 2), contributions = Dec 0 (- 2),
              interest = Dec 0 (- 2), end_amount = Dec 1 (- 2),
              growth_rate = Dec 400 (- 2)\<rparr>],
          calculation_time = clock_a\<rparr>"
  by code_simp

lemma tiny_sum:
  "val (principal tiny_example)
     + val (monthly_payment tiny_example) * 12 * of_int (years tiny_example)
   = 12499999999999999999999999999 / 2500000000000000000000000000000"
  by (simp add: tiny_example_def val_def)

text \<open>
  Claim C4, as stated, fails. The request \<open>tiny_example\<close> is within the validated ranges;
  \<open>principal + monthly_payment * 12 * years\<close> is 0.004999999999999999999999999999996,
  just under half a cent, which rounds to 0.00. The sum has 31 digits: the context
  rounds it to 0.005000000000000000000000000000, and \<open>quantize\<close> rounds that to 0.01,
  the \<open>total_contributions\<close> returned.
\<close>

theorem total_contributions_rounded_example:
  "request_model_accepts tiny_example \<and>
   map_sum id total_contributions
     (calculate_compound_interest pow_one clock_a tiny_example) = Inr (Dec 1 (- 2)) \<and>
   val (Dec 1 (- 2)) = 1 / 100 \<and>
   val (principal tiny_example)
     + val (monthly_payment tiny_example) * 12 * of_int (years tiny_example) < 1 / 200 \<and>
   round_cents (val (principal tiny_example)
     + val (monthly_payment tiny_example) * 12 * of_int (years tiny_example)) = 0"
proof -
  have "request_model_accepts tiny_example"
    by (simp add: request_model_accepts_def tiny_example_def val_def allowed_frequencies_def)
  moreover have "\<lfloor>(12499999999999999999999999999 / 2500000000000000000000000000000 :: rat) * 100
      + 1 / 2\<rfloor> = 0"
    by (rule floor_unique) simp_all
  ultimately show ?thesis
    unfolding tiny_sum tiny_example_result by (simp add: round_cents_def val_Dec_simps)
qed

text \<open>
  Claim C4, amended. For every request that the request model accepts and whose sum
  \<open>principal + 12 * years * monthly_payment\<close> fits the 28 digits of the context
  (\<open>sums_fit\<close>), whenever \<open>calculate_compound_interest\<close> returns a response, its
  \<open>total_contributions\<close> is \<open>principal + monthly_payment * 12 * years\<close> rounded half-up
  to cents: the accumulated total is that sum exactly, and the response carries it
  quantized to 0.01.
\<close>

theorem total_contributions_on_grid:
  assumes acc: "request_model_accepts request" and fit: "sums_fit request"
    and res: "calculate_compound_interest pw now request = Inr response"
  shows "val (total_contributions response) =
    round_cents (val (principal request)
      + val (monthly_payment request) * 12 * of_int (years request))"
proof -
  from res obtain a rt s ti ar where
    "dec_div (annual_rate request) (Dec 100 0) = Inr a"
    "rate_per_period (compound_frequency request) a = Inr rt"
    and run: "run_years (compound_frequency request) (monthly_payment request) rt
       (periods_per_year (compound_frequency request)) [1 .. years request]
       (initial_state request) = Inr s"
    and "dec_sub (current_amount s) (total_contributions_acc s) = Inr ti"
    and "annual_return_of pw (current_amount s) (total_contributions_acc s) (years request)
           = Inr ar"
    and "quantize2 (current_amount s) = Inr (final_amount response)"
    and qt: "quantize2 (total_contributions_acc s) = Inr (total_contributions response)"
    and "quantize2 ti = Inr (total_interest response)"
    and "quantize2 ar = Inr (annual_return response)"
      "yearly_breakdown response = breakdown_acc s"
      "calculation_time response = now"
    by (rule calculate_Inr_elim)
  from acc have fr: "compound_frequency request \<in> set allowed_frequencies"
    and mp0: "0 \<le> coef (monthly_payment request)" and y0: "0 \<le> years request"
    by (simp_all add: request_model_accepts_def val_nonneg_iff)
  from run_years_total_formula [OF fr mp0 fit y0 run] quantize2_round_cents [OF qt]
  show ?thesis by simp
qed

theorem total_contributions_on_grid_witness:
  "request_model_accepts yearly_example \<and> sums_fit yearly_example \<and>
   val (Dec 1600000 (- 2)) =
     round_cents (val (Dec 100000 (- 1)) + val (Dec 5000 (- 1)) * 12 * of_int 1)"
proof -
  have a: "request_model_accepts yearly_example"
    by (simp add: request_model_accepts_def yearly_example_def val_Dec_simps
        allowed_frequencies_def)
  have f: "sums_fit yearly_example"
    by (simp add: sums_fit_def yearly_example_def Etiny_def Emin_def prec_def)
  from total_contributions_on_grid [OF a f yearly_example_result] a f show ?thesis
    by (simp add: yearly_example_def)
qed

section \<open>Zero rate\<close>

lemma decimal_eqI: "expo a = expo b \<Longrightarrow> val a = val b \<Longrightarrow> a = b"
  by (cases a; cases b) (simp add: val_Dec)

lemma round_cents_zero: "round_cents 0 = 0"
  by (simp add: round_cents_def)

lemma dec_sub_same_val:
  assumes "dec_sub a b = Inr c" "val a = val b"
  shows "val c = 0"
proof -
  have "val a + val (dec_neg b) = of_int 0 * 10 powi 0" using assms(2) by simp
  from dec_add_exact [OF assms(1) [unfolded dec_sub_def] this] assms(2)
  show ?thesis by (simp add: Etiny_def Emin_def prec_def)
qed

lemma tiny_zero_rate_example_result:
  "calculate_compound_interest pow_one clock_a tiny_zero_rate_example =
     Inr \<lparr>final_amount = Dec 1 (- 2), total_contributions = Dec 1 (- 2),
          total_interest = Dec 0 (- 2), annual_return = Dec 0 (- 2),
          yearly_breakdown =
            [\<lparr>year = 1, start_amount = Dec 0 (- 2), contributions = Dec 0 (- 2),
              interest = Dec 0 (- 2), end_amount = Dec 1 (- 2),
              growth_rate = Dec 0 (- 2)\<rparr>],
          calculation_time = clock_a\<rparr>"
  by code_simp

lemma zero_rate_example_result:
  "calculate_compound_interest pow_one clock_a zero_rate_example =
     Inr \<lparr>final_amount = Dec 1600000 (- 2), total_contributions = Dec 1600000 (- 2),
          total_interest = Dec 0 (- 2), annual_return = Dec 0 (- 2),
          yearly_breakdown =
            [\<lparr>year = 1, start_amount = Dec 1000000 (- 2), contributions = Dec 600000 (- 2),
              interest = Dec 0 (- 2), end_amount = Dec 1600000 (- 2),
              growth_rate = Dec 6000 (- 2)\<rparr>],
          calculation_time = clock_a\<rparr>"
  by code_simp

text \<open>
  Claim C3, as stated, fails. With \<open>annual_rate=0.0\<close> the request \<open>tiny_zero_rate_example\<close>
  has \<open>principal + monthly_payment * 12 * years\<close> just under half a cent, which rounds
  to 0.00, and the \<open>final_amount\<close> returned is 0.01: the additions are rounded to 28
  digits before the amount is rounded to cents.
\<close>

theorem zero_rate_rounded_example:
  "val (annual_rate tiny_zero_rate_example) = 0 \<and>
   0 \<le> val (monthly_payment tiny_zero_rate_example) \<and>
   1 \<le> years tiny_zero_rate_example \<and>
   map_sum id final_amount
     (calculate_compound_interest pow_one clock_a tiny_zero_rate_example) = Inr (Dec 1 (- 2)) \<and>
   val (Dec 1 (- 2)) = 1 / 100 \<and>
   val (principal tiny_zero_rate_example)
     + val (monthly_payment tiny_zero_rate_example) * 12
       * of_int (years tiny_zero_rate_example) < 1 / 200 \<and>
   round_cents (val (principal tiny_zero_rate_example)
     + val (monthly_payment tiny_zero_rate_example) * 12
       * of_int (years tiny_zero_rate_example)) = 0"
proof -
  have e: "principal tiny_zero_rate_example = principal tiny_example"
    "monthly_payment tiny_zero_rate_example = monthly_payment tiny_example"
    "years tiny_zero_rate_example = years tiny_example"
    by (simp_all add: tiny_zero_rate_example_def)
  have "val (annual_rate tiny_zero_rate_example) = 0"
    by (simp add: tiny_zero_rate_example_def val_def)
  moreover have "0 \<le> val (monthly_payment tiny_zero_rate_example)"
    "1 \<le> years tiny_zero_rate_example"
    by (simp_all add: tiny_zero_rate_example_def tiny_example_def val_def)
  moreover have "\<lfloor>(12499999999999999999999999999 / 2500000000000000000000000000000 :: rat) * 100
      + 1 / 2\<rfloor> = 0"
    by (rule floor_unique) simp_all
  ultimately show ?thesis
    unfolding e tiny_sum tiny_zero_rate_example_result
    by (simp add: round_cents_def val_Dec_simps)
qed

text \<open>
  Claim C3, amended. For every request with \<open>annual_rate = 0\<close> whose principal has at most
  28 digits, whenever \<open>calculate_compound_interest\<close> returns a response, its
  \<open>final_amount\<close> is its \<open>total_contributions\<close> and its \<open>total_interest\<close> is 0.00. If
  moreover the frequency is one of the three, the payment is not negative, \<open>years \<ge> 1\<close>
  and the sum \<open>principal + 12 * years * monthly_payment\<close> fits the 28 digits of the
  context, then \<open>final_amount\<close> is \<open>principal + monthly_payment * 12 * years\<close> rounded
  half-up to cents.
\<close>

theorem zero_rate_identity:
  assumes z: "val (annual_rate request) = 0" and rp: "representable (principal request)"
    and res: "calculate_compound_interest pw now request = Inr response"
  shows "final_amount response = total_contributions response \<and>
    total_interest response = Dec 0 (- 2) \<and>
    (sums_fit request \<and> 0 \<le> val (monthly_payment request) \<and> 1 \<le> years request \<and>
     compound_frequency request \<in> set allowed_frequencies \<longrightarrow>
       val (final_amount response) =
         round_cents (val (principal request)
           + val (monthly_payment request) * 12 * of_int (years request)))"
proof -
  from res obtain a rt s ti ar where
    a: "dec_div (annual_rate request) (Dec 100 0) = Inr a"
    and rt: "rate_per_period (compound_frequency request) a = Inr rt"
    and run: "run_years (compound_frequency request) (monthly_payment request) rt
       (periods_per_year (compound_frequency request)) [1 .. years request]
       (initial_state request) = Inr s"
    and sub: "dec_sub (current_amount s) (total_contributions_acc s) = Inr ti"
    and "annual_return_of pw (current_amount s) (total_contributions_acc s) (years request)
           = Inr ar"
    and qf: "quantize2 (current_amount s) = Inr (final_amount response)"
    and qt: "quantize2 (total_contributions_acc s) = Inr (total_contributions response)"
    and qi: "quantize2 ti = Inr (total_interest response)"
    and "quantize2 ar = Inr (annual_return response)"
      "yearly_breakdown response = breakdown_acc s"
      "calculation_time response = now"
    by (rule calculate_Inr_elim)
  from z have "coef (annual_rate request) = 0" by (simp add: val_eq_0_iff)
  then have "coef a = 0" using a by (rule dec_div_zero)
  then have r0: "coef rt = 0" using rt by (rule rate_per_period_zero)
  have "tracks (initial_state request)"
    using rp by (simp add: tracks_def initial_state_def)
  from run_years_tracks [OF r0 run this]
  have eq: "val (current_amount s) = val (total_contributions_acc s)"
    by (simp add: tracks_def)
  have vf: "val (final_amount response) = round_cents (val (total_contributions_acc s))"
    using quantize2_round_cents [OF qf] eq by simp
  have "val (final_amount response) = val (total_contributions response)"
    using vf quantize2_round_cents [OF qt] by simp
  with quantize2_expo [OF qf] quantize2_expo [OF qt]
  have 1: "final_amount response = total_contributions response"
    by (intro decimal_eqI) simp_all
  have "val ti = 0" using sub eq by (rule dec_sub_same_val)
  with quantize2_round_cents [OF qi] have "val (total_interest response) = 0"
    by (simp add: round_cents_zero)
  with quantize2_expo [OF qi] have 2: "total_interest response = Dec 0 (- 2)"
    by (intro decimal_eqI) (simp_all add: val_Dec)
  have 3: "val (final_amount response) =
         round_cents (val (principal request)
           + val (monthly_payment request) * 12 * of_int (years request))"
    if "sums_fit request" "0 \<le> val (monthly_payment request)" "1 \<le> years request"
      "compound_frequency request \<in> set allowed_frequencies"
  proof -
    from that have "0 \<le> coef (monthly_payment request)" "0 \<le> years request"
      by (simp_all add: val_nonneg_iff)
    from run_years_total_formula [OF that(4) this(1) that(1) this(2) run] vf
    show ?thesis by simp
  qed
  from 1 2 3 show ?thesis by blast
qed

theorem zero_rate_identity_witness:
  "val (annual_rate zero_rate_example) = 0 \<and>
   representable (principal zero_rate_example) \<and>
   sums_fit zero_rate_example \<and>
   0 \<le> val (monthly_payment zero_rate_example) \<and> 1 \<le> years zero_rate_example \<and>
   compound_frequency zero_rate_example \<in> set allowed_frequencies \<and>
   calculate_compound_interest pow_one clock_a zero_rate_example =
     Inr \<lparr>final_amount = Dec 1600000 (- 2), total_contributions = Dec 1600000 (- 2),
          total_interest = Dec 0 (- 2), annual_return = Dec 0 (- 2),
          yearly_breakdown =
            [\<lparr>year = 1, start_amount = Dec 1000000 (- 2), contributions = Dec 600000 (- 2),
              interest = Dec 0 (- 2), end_amount = Dec 1600000 (- 2),
              growth_rate = Dec 6000 (- 2)\<rparr>],
          calculation_time = clock_a\<rparr> \<and>
   val (Dec 1600000 (- 2)) =
     round_cents (val (Dec 100000 (- 1)) + val (Dec 5000 (- 1)) * 12 * of_int 1)"
proof -
  have z: "val (annual_rate zero_rate_example) = 0"
    by (simp add: zero_rate_example_def yearly_example_def val_Dec_simps)
  have r: "representable (principal zero_rate_example)"
    by (simp add: zero_rate_example_def yearly_example_def representable_def
        Etiny_def Emin_def prec_def)
  have f: "sums_fit zero_rate_example"
    by (simp add: sums_fit_def zero_rate_example_def yearly_example_def
        Etiny_def Emin_def prec_def)
  have o: "0 \<le> val (monthly_payment zero_rate_example)" "1 \<le> years zero_rate_example"
    "compound_frequency zero_rate_example \<in> set allowed_frequencies"
    by (simp_all add: zero_rate_example_def yearly_example_def val_Dec_simps
        allowed_frequencies_def)
  from zero_rate_identity [OF z r zero_rate_example_result] z r f o zero_rate_example_result
  show ?thesis
    by (simp add: zero_rate_example_def yearly_example_def)
qed

section \<open>Conversion to floats\<close>

lemma bin_exponent_bounds:
  assumes "x \<noteq> 0"
  shows "2 powi bin_exponent x \<le> \<bar>x\<bar>" and "\<bar>x\<bar> < 2 powi (bin_exponent x + 1)"
proof -
  obtain p q where pq: "quotient_of \<bar>x\<bar> = (p, q)" by (cases "quotient_of \<bar>x\<bar>")
  then have q: "0 < q" by (rule quotient_of_denom_pos)
  from pq have x: "\<bar>x\<bar> = of_int p / of_int q" by (rule quotient_of_div)
  have "0 < \<bar>x\<bar>" using assms by simp
  with x q have p: "0 < p" by (simp add: zero_less_divide_iff)
  define b where "b = bitlen p - bitlen q"
  have bp: "1 \<le> bitlen p" "1 \<le> bitlen q"
    using p q bitlen_eq_zero_iff [of p] bitlen_eq_zero_iff [of q] bitlen_nonneg [of p]
      bitlen_nonneg [of q] by linarith+
  from bitlen_bounds [OF p] have p1: "(2::rat) ^ nat (bitlen p - 1) \<le> of_int p"
    and p2: "of_int p < (2::rat) ^ nat (bitlen p)"
    by (metis of_int_le_iff of_int_numeral of_int_power, metis of_int_less_iff of_int_numeral of_int_power)
  from bitlen_bounds [OF q] have q1: "(2::rat) ^ nat (bitlen q - 1) \<le> of_int q"
    and q2: "of_int q < (2::rat) ^ nat (bitlen q)"
    by (metis of_int_le_iff of_int_numeral of_int_power, metis of_int_less_iff of_int_numeral of_int_power)
  have pw: "(2::rat) ^ nat k = 2 powi k" if "0 \<le> k" for k
    using that by (simp add: power_int_def)
  have qpos: "(0::rat) < of_int q" using q by simp
  have up: "\<bar>x\<bar> < 2 powi (b + 1)"
  proof -
    have "of_int p < (2::rat) powi bitlen p" using p2 bp by (simp add: pw)
    also have "\<dots> = 2 powi (b + 1) * 2 powi (bitlen q - 1)"
      by (simp add: b_def power_int_add [symmetric])
    also have "\<dots> \<le> 2 powi (b + 1) * of_int q"
      using q1 bp by (intro mult_left_mono) (simp_all add: pw)
    finally show ?thesis using qpos by (simp add: x pos_divide_less_eq)
  qed
  have lo: "2 powi (b - 1) < \<bar>x\<bar>"
  proof -
    have "2 powi (b - 1) * of_int q < (2::rat) powi (b - 1) * 2 powi bitlen q"
      using q2 bp by (intro mult_strict_left_mono) (simp_all add: pw)
    also have "\<dots> = 2 powi (bitlen p - 1)"
      by (simp add: b_def power_int_add [symmetric])
    also have "\<dots> \<le> of_int p" using p1 bp by (simp add: pw)
    finally show ?thesis using qpos by (simp add: x pos_less_divide_eq)
  qed
  have e: "bin_exponent x = (if 2 powi b \<le> \<bar>x\<bar> then b else b - 1)"
    by (simp add: bin_exponent_def pq b_def Let_def)
  show "2 powi bin_exponent x \<le> \<bar>x\<bar>" using lo by (simp add: e)
  show "\<bar>x\<bar> < 2 powi (bin_exponent x + 1)" using up by (auto simp: e not_le)
qed


lemma round_nearest_even_err: "\<bar>of_int (round_nearest_even y) - y\<bar> \<le> 1 / 2"
proof -
  have "of_int \<lfloor>y\<rfloor> \<le> y" "y < of_int \<lfloor>y\<rfloor> + 1" by linarith+
  then show ?thesis by (auto simp: round_nearest_even_def Let_def)
qed

lemma round_nearest_even_ge: "of_int n \<le> y \<Longrightarrow> n \<le> round_nearest_even y"
proof -
  assume "of_int n \<le> y"
  then have "n \<le> \<lfloor>y\<rfloor>" by (simp add: le_floor_iff)
  then show ?thesis by (auto simp: round_nearest_even_def Let_def)
qed

text \<open>In the normal range the conversion is within half a unit in the last place.\<close>

lemma binary64_error:
  assumes x: "x \<noteq> 0" and lo: "2 powi (- 1022) \<le> \<bar>x\<bar>" and hi: "\<bar>x\<bar> < 2 ^ 1023"
  shows "\<exists>f. binary64 x = Float f \<and> \<bar>f - x\<bar> \<le> \<bar>f\<bar> / 2 ^ 53"
proof -
  define e where "e = bin_exponent x"
  define u :: rat where "u = 2 powi (e - 52)"
  define n where "n = round_nearest_even (\<bar>x\<bar> / u)"
  define y :: rat where "y = of_int n * u"
  have u0: "0 < u" by (simp add: u_def)
  from bin_exponent_bounds [OF x] have b: "2 powi e \<le> \<bar>x\<bar>" "\<bar>x\<bar> < 2 powi (e + 1)"
    by (simp_all add: e_def)
  have e_lo: "- 1022 \<le> e"
  proof (rule ccontr)
    assume "\<not> - 1022 \<le> e"
    then have "e + 1 \<le> - 1022" by simp
    then have "(2::rat) powi (e + 1) \<le> 2 powi (- 1022)" by (intro power_int_increasing) simp_all
    with b(2) lo show False by linarith
  qed
  have e_hi: "e \<le> 1022"
  proof (rule ccontr)
    assume "\<not> e \<le> 1022"
    then have "1023 \<le> e" by simp
    then have "(2::rat) powi 1023 \<le> 2 powi e" by (intro power_int_increasing) simp_all
    moreover have "(2::rat) powi 1023 = 2 ^ 1023" by (simp only: power_int_numeral)
    ultimately show False using b(1) hi by linarith
  qed
  have pe: "(2::rat) powi e = 2 ^ 52 * u"
  proof -
    have "(2::rat) powi e = 2 powi (52 + (e - 52))" by simp
    also have "\<dots> = 2 powi 52 * 2 powi (e - 52)" by (rule power_int_add) simp
    finally show ?thesis by (simp add: u_def)
  qed
  have "(of_int (2 ^ 52) :: rat) \<le> \<bar>x\<bar> / u"
    using b(1) u0 by (simp add: pe pos_le_divide_eq)
  then have "2 ^ 52 \<le> n" unfolding n_def by (rule round_nearest_even_ge)
  then have "(2::rat) ^ 52 \<le> of_int n" by (metis of_int_le_iff of_int_numeral of_int_power)
  then have ylo: "2 ^ 52 * u \<le> y" using u0 by (simp add: y_def)
  have "\<bar>of_int n - \<bar>x\<bar> / u\<bar> \<le> 1 / 2" unfolding n_def by (rule round_nearest_even_err)
  then have "\<bar>of_int n - \<bar>x\<bar> / u\<bar> * u \<le> 1 / 2 * u" using u0 by (intro mult_right_mono) simp_all
  moreover have "\<bar>of_int n - \<bar>x\<bar> / u\<bar> * u = \<bar>y - \<bar>x\<bar>\<bar>"
  proof -
    have "\<bar>of_int n - \<bar>x\<bar> / u\<bar> * u = \<bar>(of_int n - \<bar>x\<bar> / u) * u\<bar>"
      using u0 by (simp add: abs_mult)
    also have "(of_int n - \<bar>x\<bar> / u) * u = y - \<bar>x\<bar>"
      using u0 by (simp add: y_def algebra_simps)
    finally show ?thesis .
  qed
  ultimately have err: "\<bar>y - \<bar>x\<bar>\<bar> \<le> u / 2" by simp
  have "u / 2 \<le> y / 2 ^ 53" using ylo by simp
  with err have rel: "\<bar>y - \<bar>x\<bar>\<bar> \<le> y / 2 ^ 53" by simp
  have "(0::rat) < 2 ^ 52 * u" using u0 by (intro mult_pos_pos) simp_all
  with ylo have y0: "0 < y" by linarith
  have "y \<le> \<bar>x\<bar> + u / 2" using err by linarith
  also have "u / 2 \<le> \<bar>x\<bar>" using b(1) u0 by (simp add: pe)
  finally have "y \<le> 2 * \<bar>x\<bar>" by simp
  also have "\<dots> < 2 * 2 ^ 1023" using hi by linarith
  finally have "y < 2 * 2 ^ 1023" .
  moreover have s: "(1024::nat) = Suc 1023" by simp
  have "(2::rat) ^ 1024 = 2 * 2 ^ 1023" unfolding s by (rule power_Suc)
  ultimately have yhi: "y < 2 ^ 1024" by (simp only:)
  have m: "max (bin_exponent x) (- 1022) = e" using e_lo by (simp add: e_def)
  have val: "binary64 x = Float (sgn x * y)"
    using x yhi unfolding binary64_def m Let_def u_def [symmetric] n_def [symmetric]
      y_def [symmetric] by simp
  have "\<bar>sgn x * y - x\<bar> = \<bar>y - \<bar>x\<bar>\<bar>"
  proof (cases "0 < x")
    case True
    then show ?thesis by simp
  next
    case False
    with x have "x < 0" by simp
    then show ?thesis by (simp add: abs_minus_commute)
  qed
  moreover have "\<bar>sgn x * y\<bar> = y" using x y0 by (simp add: abs_mult)
  ultimately show ?thesis using rel val by simp
qed

lemma binary64_zero: "binary64 0 = Float 0"
  by (simp add: binary64_def)

lemma round_nearest_even_of_int: "round_nearest_even (of_int n) = n"
  by (simp add: round_nearest_even_def)

text \<open>A value with at most 53 significant bits is kept by the conversion.\<close>

lemma binary64_exact:
  assumes x: "x = of_int m * 2 powi k" and m: "\<bar>m\<bar> < 2 ^ 53"
    and k: "- 1074 \<le> k" "k \<le> 970"
  shows "binary64 x = Float x"
proof (cases "x = 0")
  case True
  then show ?thesis by (simp add: binary64_def)
next
  case False
  define E where "E = max (bin_exponent x) (- 1022)"
  define u :: rat where "u = 2 powi (E - 52)"
  have u0: "0 < u" by (simp add: u_def)
  from m have "(of_int \<bar>m\<bar> :: rat) < of_int (2 ^ 53)" by (simp only: of_int_less_iff)
  then have m': "(of_int \<bar>m\<bar> :: rat) < 2 ^ 53" by simp
  have ax: "\<bar>x\<bar> = of_int \<bar>m\<bar> * 2 powi k" by (simp add: x abs_mult)
  have "\<bar>x\<bar> < 2 ^ 53 * 2 powi k" unfolding ax using m' by (intro mult_strict_right_mono) simp_all
  also have "\<dots> = 2 powi (53 + k)" by (simp add: power_int_add)
  finally have xk: "\<bar>x\<bar> < 2 powi (53 + k)" .
  have ek: "bin_exponent x < 53 + k"
  proof (rule ccontr)
    assume "\<not> bin_exponent x < 53 + k"
    then have "(2::rat) powi (53 + k) \<le> 2 powi bin_exponent x"
      by (intro power_int_increasing) simp_all
    with bin_exponent_bounds(1) [OF False] xk show False by linarith
  qed
  then have Ek: "E - 52 \<le> k" using k(1) by (simp add: E_def)
  define j where "j = nat (k - (E - 52))"
  have pk: "(2::rat) powi k = 2 ^ j * u"
  proof -
    have "(2::rat) powi k = 2 powi (int j + (E - 52))" using Ek by (simp add: j_def)
    also have "\<dots> = 2 powi int j * 2 powi (E - 52)" by (rule power_int_add) simp
    finally show ?thesis by (simp add: u_def)
  qed
  have "\<bar>x\<bar> / u = of_int (\<bar>m\<bar> * 2 ^ j)" using u0 by (simp add: ax pk)
  then have r: "round_nearest_even (\<bar>x\<bar> / u) = \<bar>m\<bar> * 2 ^ j"
    by (simp only: round_nearest_even_of_int)
  have y: "of_int (round_nearest_even (\<bar>x\<bar> / u)) * u = \<bar>x\<bar>"
    unfolding r using u0 by (simp add: ax pk)
  have "(2::rat) powi (53 + k) \<le> 2 powi 1023" using k(2) by (intro power_int_increasing) simp_all
  also have "(2::rat) powi 1023 = 2 ^ 1023" by (simp only: power_int_numeral)
  also have "(2::rat) ^ 1023 \<le> 2 ^ 1024" by (intro power_increasing) simp_all
  finally have "\<bar>x\<bar> < 2 ^ 1024" using xk by linarith
  with False show ?thesis
    unfolding binary64_def Let_def E_def [symmetric] u_def [symmetric] y
    by (simp add: mult_sgn_abs)
qed

lemma to_float_int: "\<bar>n\<bar> < 2 ^ 53 \<Longrightarrow> val d = of_int n \<Longrightarrow> to_float d = Float (of_int n)"
  unfolding to_float_def using binary64_exact [of "of_int n" n 0] by simp

lemma binary64_eval:
  assumes "x \<noteq> 0" "bin_exponent x = e" "- 1022 \<le> e"
    and "round_nearest_even (\<bar>x\<bar> / 2 powi (e - 52)) = n"
    and "of_int n * 2 powi (e - 52) < (2::rat) ^ 1024"
  shows "binary64 x = Float (sgn x * (of_int n * 2 powi (e - 52)))"
  using assms(1,3,5) unfolding binary64_def Let_def assms(2) by (simp add: assms(4))

lemma exponent_of_104_01: "bin_exponent (10401 / 100) = 6"
  by code_simp

lemma rounded_104_01: "round_nearest_even (\<bar>10401 / 100\<bar> / 2 powi (6 - 52)) = 7319053081918833"
  by code_simp

lemma float_of_104_01:
  "to_float (Dec 10401 (- 2)) = Float (7319053081918833 / 70368744177664)"
proof -
  have v: "val (Dec 10401 (- 2)) = 10401 / 100" by (simp add: val_Dec_simps)
  have "(of_int 7319053081918833 :: rat) * 2 powi (6 - 52) < 2 ^ 11" by (simp add: power_int_minus)
  also have "(2::rat) ^ 11 \<le> 2 ^ 1024" by (intro power_increasing) simp_all
  finally have "(of_int 7319053081918833 :: rat) * 2 powi (6 - 52) < 2 ^ 1024" .
  from binary64_eval [OF _ exponent_of_104_01 _ rounded_104_01 this]
  show ?thesis unfolding to_float_def v by (simp add: power_int_minus)
qed

lemma yearly_example_amounts:
  "to_float (Dec 1640000 (- 2)) = Float 16400"
  "to_float (Dec 1600000 (- 2)) = Float 16000"
  "to_float (Dec 40000 (- 2)) = Float 400"
  "to_float (Dec 1000000 (- 2)) = Float 10000"
  "to_float (Dec 600000 (- 2)) = Float 6000"
  "to_float (Dec 6400 (- 2)) = Float 64"
  using to_float_int [of 16400 "Dec 1640000 (- 2)"] to_float_int [of 16000 "Dec 1600000 (- 2)"]
    to_float_int [of 400 "Dec 40000 (- 2)"] to_float_int [of 10000 "Dec 1000000 (- 2)"]
    to_float_int [of 6000 "Dec 600000 (- 2)"] to_float_int [of 64 "Dec 6400 (- 2)"]
  by (simp_all add: val_Dec_simps)

lemma yearly_example_return: "to_float (Dec 250 (- 2)) = Float (5 / 2)"
  unfolding to_float_def using binary64_exact [of "5 / 2" 5 "- 1"]
  by (simp add: val_Dec_simps power_int_minus)

lemma yearly_example_floats:
  "calculate_compound_interest_floats pow_one clock_a yearly_example =
     Inr \<lparr>final_amount_f = Float 16400, total_contributions_f = Float 16000,
          total_interest_f = Float 400, annual_return_f = Float (5 / 2),
          yearly_breakdown_f =
            [\<lparr>year_f = 1, start_amount_f = Float 10000, contributions_f = Float 6000,
              interest_f = Float 400, end_amount_f = Float 16400,
              growth_rate_f = Float 64\<rparr>],
          calculation_time_f = clock_a\<rparr>"
  unfolding calculate_compound_interest_floats_def yearly_example_result
  by (simp add: returned_response_def returned_entry_def yearly_example_amounts
      yearly_example_return)

text \<open>A cent amount is in the normal range of the floats, or zero.\<close>

lemma cents_in_float_range:
  assumes "quantize2 d = Inr q"
  shows "val q = 0 \<or> (2 powi (- 1022) \<le> \<bar>val q\<bar> \<and> \<bar>val q\<bar> < 2 ^ 1023)"
proof (cases "coef q = 0")
  case True
  then show ?thesis by (simp add: val_zero)
next
  case False
  obtain m e where d: "d = Dec m e" by (cases d)
  from quantize2_cases [OF assms [unfolded d]] have c: "\<bar>coef q\<bar> < 10 ^ 28" by blast
  have v: "val q = of_int (coef q) / 100"
    using assms by (intro val_cents quantize2_expo)
  have av: "\<bar>val q\<bar> = of_int \<bar>coef q\<bar> / 100" by (simp add: v)
  from False have "1 \<le> \<bar>coef q\<bar>" by simp
  then have "(1::rat) \<le> of_int \<bar>coef q\<bar>" by (simp only: of_int_1_le_iff)
  then have lo: "1 / 100 \<le> \<bar>val q\<bar>" unfolding av by simp
  have "(2::rat) powi (- 1022) \<le> 2 powi (- 7)" by (intro power_int_increasing) simp_all
  also have "\<dots> \<le> 1 / 100" by (simp add: power_int_minus)
  finally have l: "2 powi (- 1022) \<le> \<bar>val q\<bar>" using lo by simp
  from c have "(of_int \<bar>coef q\<bar> :: rat) < of_int (10 ^ 28)" by (simp only: of_int_less_iff)
  then have "\<bar>val q\<bar> < 10 ^ 26" unfolding av by simp
  also have "(10::rat) ^ 26 \<le> 16 ^ 26" by (intro power_mono) simp_all
  also have "(16::rat) ^ 26 = (2 ^ 4) ^ 26" by simp
  also have "\<dots> = 2 ^ (4 * 26)" by (rule power_mult [symmetric])
  also have "\<dots> \<le> 2 ^ 1023" by (intro power_increasing) simp_all
  finally show ?thesis using l by simp
qed

lemma to_float_cents:
  assumes "quantize2 d = Inr q"
  shows "\<exists>f. to_float q = Float f \<and> \<bar>f - val q\<bar> \<le> \<bar>f\<bar> / 2 ^ 53"
proof (cases "val q = 0")
  case True
  then show ?thesis by (simp add: to_float_def binary64_zero)
next
  case False
  with cents_in_float_range [OF assms]
  have "2 powi (- 1022) \<le> \<bar>val q\<bar>" "\<bar>val q\<bar> < 2 ^ 1023" by simp_all
  from binary64_error [OF False this] show ?thesis by (simp add: to_float_def)
qed

lemma float_conservation:
  fixes f t i F T I :: rat
  assumes "\<bar>F - (T + I)\<bar> \<le> 1 / 100"
    and "\<bar>f - F\<bar> \<le> \<bar>f\<bar> / 2 ^ 53" "\<bar>t - T\<bar> \<le> \<bar>t\<bar> / 2 ^ 53" "\<bar>i - I\<bar> \<le> \<bar>i\<bar> / 2 ^ 53"
  shows "\<bar>f - (t + i)\<bar> \<le> 1 / 100 + (\<bar>f\<bar> + \<bar>t\<bar> + \<bar>i\<bar>) / 2 ^ 53"
proof -
  have "\<bar>f - (t + i)\<bar> \<le> \<bar>F - (T + I)\<bar> + \<bar>f - F\<bar> + \<bar>t - T\<bar> + \<bar>i - I\<bar>" by linarith
  also have "\<dots> \<le> 1 / 100 + \<bar>f\<bar> / 2 ^ 53 + \<bar>t\<bar> / 2 ^ 53 + \<bar>i\<bar> / 2 ^ 53"
    using assms by linarith
  also have "\<dots> = 1 / 100 + (\<bar>f\<bar> + \<bar>t\<bar> + \<bar>i\<bar>) / 2 ^ 53" by (simp add: add_divide_distrib)
  finally show ?thesis .
qed

section \<open>Conservation\<close>

lemma conservation_of_response:
  assumes "calculate_compound_interest pw now request = Inr response"
  shows "\<bar>val (final_amount response)
          - (val (total_contributions response) + val (total_interest response))\<bar> \<le> 1 / 100 \<and>
    (\<exists>f t i. final_amount_f (returned_response response) = Float f \<and>
       total_contributions_f (returned_response response) = Float t \<and>
       total_interest_f (returned_response response) = Float i \<and>
       \<bar>f - (t + i)\<bar> \<le> 1 / 100 + (\<bar>f\<bar> + \<bar>t\<bar> + \<bar>i\<bar>) / 2 ^ 53)"
proof -
  from assms obtain a rt s ti ar where
    "dec_div (annual_rate request) (Dec 100 0) = Inr a"
    "rate_per_period (compound_frequency request) a = Inr rt"
    "run_years (compound_frequency request) (monthly_payment request) rt
       (periods_per_year (compound_frequency request)) [1 .. years request]
       (initial_state request) = Inr s"
    and sub: "dec_sub (current_amount s) (total_contributions_acc s) = Inr ti"
    and "annual_return_of pw (current_amount s) (total_contributions_acc s) (years request)
           = Inr ar"
    and qf: "quantize2 (current_amount s) = Inr (final_amount response)"
    and qt: "quantize2 (total_contributions_acc s) = Inr (total_contributions response)"
    and qi: "quantize2 ti = Inr (total_interest response)"
    and "quantize2 ar = Inr (annual_return response)"
      "yearly_breakdown response = breakdown_acc s"
      "calculation_time response = now"
    by (rule calculate_Inr_elim)
  have vf: "val (final_amount response) = of_int (coef (final_amount response)) / 100"
    using qf by (intro val_cents quantize2_expo)
  have vt: "val (total_contributions response) = of_int (coef (total_contributions response)) / 100"
    using qt by (intro val_cents quantize2_expo)
  have vi: "val (total_interest response) = of_int (coef (total_interest response)) / 100"
    using qi by (intro val_cents quantize2_expo)
  have dec: "\<bar>val (final_amount response)
          - (val (total_contributions response) + val (total_interest response))\<bar> \<le> 1 / 100"
    unfolding vf vt vi
  proof (rule cents_conservation)
    show "\<bar>of_int (coef (final_amount response)) / 100 - val (current_amount s)\<bar> \<le> 1 / 200"
      using quantize2_err [OF qf] unfolding vf .
    show "\<bar>of_int (coef (total_contributions response)) / 100 - val (total_contributions_acc s)\<bar>
            \<le> 1 / 200"
      using quantize2_err [OF qt] unfolding vt .
    show "\<bar>of_int (coef (total_interest response)) / 100 - val ti\<bar>
            + \<bar>val ti - (val (current_amount s) - val (total_contributions_acc s))\<bar> < 1 / 100"
      using interest_cents_close [OF sub qi] unfolding vi .
  qed
  from to_float_cents [OF qf] obtain f where
    f: "to_float (final_amount response) = Float f"
      "\<bar>f - val (final_amount response)\<bar> \<le> \<bar>f\<bar> / 2 ^ 53" by blast
  from to_float_cents [OF qt] obtain t where
    t: "to_float (total_contributions response) = Float t"
      "\<bar>t - val (total_contributions response)\<bar> \<le> \<bar>t\<bar> / 2 ^ 53" by blast
  from to_float_cents [OF qi] obtain i where
    i: "to_float (total_interest response) = Float i"
      "\<bar>i - val (total_interest response)\<bar> \<le> \<bar>i\<bar> / 2 ^ 53" by blast
  from float_conservation [OF dec f(2) t(2) i(2)] f(1) t(1) i(1) dec
  show ?thesis by (simp add: returned_response_def)
qed

lemma cent_boundary_example_result:
  "calculate_compound_interest pow_one clock_a cent_boundary_example =
     Inr \<lparr>final_amount = Dec 10401 (- 2), total_contributions = Dec 10000 (- 2),
          total_interest = Dec 400 (- 2), annual_return = Dec 400 (- 2),
          yearly_breakdown =
            [\<lparr>year = 1, start_amount = Dec 10000 (- 2), contributions = Dec 0 (- 2),
              interest = Dec 400 (- 2), end_amount = Dec 10401 (- 2),
              growth_rate = Dec 400 (- 2)\<rparr>],
          calculation_time = clock_a\<rparr>"
  by code_simp

text \<open>
  Claim C5, as stated, fails on the returned floats. For the valid request
  \<open>cent_boundary_example\<close> the quantized amounts are 104.01, 100.00 and 4.00, which
  differ by exactly 0.01; \<open>float(104.01)\<close> is 104.0100000000000051..., so the returned
  \<open>final_amount - (total_contributions + total_interest)\<close> is more than 0.01.
\<close>

theorem float_conservation_example:
  "request_model_accepts cent_boundary_example \<and>
   calculate_compound_interest_floats pow_one clock_a cent_boundary_example =
     Inr \<lparr>final_amount_f = Float (7319053081918833 / 70368744177664),
          total_contributions_f = Float 100, total_interest_f = Float 4,
          annual_return_f = Float 4,
          yearly_breakdown_f =
            [\<lparr>year_f = 1, start_amount_f = Float 100, contributions_f = Float 0,
              interest_f = Float 4,
              end_amount_f = Float (7319053081918833 / 70368744177664),
              growth_rate_f = Float 4\<rparr>],
          calculation_time_f = clock_a\<rparr> \<and>
   (1 / 100 :: rat) < 7319053081918833 / 70368744177664 - (100 + 4)"
proof -
  have a: "request_model_accepts cent_boundary_example"
    by (simp add: request_model_accepts_def cent_boundary_example_def val_def
        allowed_frequencies_def)
  have f: "to_float (Dec 10000 (- 2)) = Float 100" "to_float (Dec 400 (- 2)) = Float 4"
    "to_float (Dec 0 (- 2)) = Float 0"
    using to_float_int [of 100 "Dec 10000 (- 2)"] to_float_int [of 4 "Dec 400 (- 2)"]
      to_float_int [of 0 "Dec 0 (- 2)"]
    by (simp_all add: val_Dec_simps)
  have "calculate_compound_interest_floats pow_one clock_a cent_boundary_example =
     Inr \<lparr>final_amount_f = Float (7319053081918833 / 70368744177664),
          total_contributions_f = Float 100, total_interest_f = Float 4,
          annual_return_f = Float 4,
          yearly_breakdown_f =
            [\<lparr>year_f = 1, start_amount_f = Float 100, contributions_f = Float 0,
              interest_f = Float 4,
              end_amount_f = Float (7319053081918833 / 70368744177664),
              growth_rate_f = Float 4\<rparr>],
          calculation_time_f = clock_a\<rparr>"
    unfolding calculate_compound_interest_floats_def cent_boundary_example_result
    by (simp add: returned_response_def returned_entry_def f float_of_104_01)
  with a show ?thesis by simp
qed

text \<open>
  Claim C5, amended. Whenever the service returns a response, the quantized decimal
  amounts it is built from satisfy \<open>final_amount = total_contributions + total_interest\<close>
  within 0.01, and the floats returned for them are finite and satisfy it within
  \<open>0.01 + (\<bar>final_amount\<bar> + \<bar>total_contributions\<bar> + \<bar>total_interest\<bar>) / 2 ^ 53\<close>, the
  error of the three conversions (the differences taken exactly).
\<close>

theorem conservation_of_returned_floats:
  assumes "calculate_compound_interest_floats pw now request = Inr returned"
  shows "\<exists>response f t i.
    calculate_compound_interest pw now request = Inr response \<and>
    \<bar>val (final_amount response)
       - (val (total_contributions response) + val (total_interest response))\<bar> \<le> 1 / 100 \<and>
    final_amount_f returned = Float f \<and> total_contributions_f returned = Float t \<and>
    total_interest_f returned = Float i \<and>
    \<bar>f - (t + i)\<bar> \<le> 1 / 100 + (\<bar>f\<bar> + \<bar>t\<bar> + \<bar>i\<bar>) / 2 ^ 53"
proof -
  from assms obtain response where
    r: "calculate_compound_interest pw now request = Inr response"
    and e: "returned = returned_response response"
    unfolding calculate_compound_interest_floats_def
    by (cases "calculate_compound_interest pw now request") auto
  from conservation_of_response [OF r] r show ?thesis unfolding e by blast
qed

theorem conservation_of_returned_floats_witness:
  "calculate_compound_interest_floats pow_one clock_a yearly_example =
     Inr \<lparr>final_amount_f = Float 16400, total_contributions_f = Float 16000,
          total_interest_f = Float 400, annual_return_f = Float (5 / 2),
          yearly_breakdown_f =
            [\<lparr>year_f = 1, start_amount_f = Float 10000, contributions_f = Float 6000,
              interest_f = Float 400, end_amount_f = Float 16400,
              growth_rate_f = Float 64\<rparr>],
          calculation_time_f = clock_a\<rparr> \<and>
   (\<exists>response f t i.
      calculate_compound_interest pow_one clock_a yearly_example = Inr response \<and>
      \<bar>val (final_amount response)
         - (val (total_contributions response) + val (total_interest response))\<bar> \<le> 1 / 100 \<and>
      Float 16400 = Float f \<and> Float 16000 = Float t \<and> Float 400 = Float i \<and>
      \<bar>f - (t + i)\<bar> \<le> 1 / 100 + (\<bar>f\<bar> + \<bar>t\<bar> + \<bar>i\<bar>) / 2 ^ 53)"
  using conservation_of_returned_floats [OF yearly_example_floats] yearly_example_floats
  by simp

section \<open>Contribution timing\<close>

lemma period_body_step:
  assumes "period_body freq mp rate s = Inr s'"
  shows "(if freq = ''monthly'' \<and> 0 < coef mp then contribution_then_interest mp rate
          else interest_step rate) (current_amount s) = Inr (current_amount s')"
proof -
  from assms obtain s1 pi c yi where
    s1: "monthly_contribution freq mp s = Inr s1"
    and pi: "dec_mul (current_amount s1) rate = Inr pi"
    and c: "dec_add (current_amount s1) pi = Inr c"
    and "dec_add (year_interest s1) pi = Inr yi"
    and s': "s' = s1\<lparr>current_amount := c, year_interest := yi\<rparr>"
    by (rule period_body_Inr)
  from pi c have st: "interest_step rate (current_amount s1) = Inr (current_amount s')"
    by (simp add: interest_step_def s')
  show ?thesis
  proof (cases "freq = ''monthly'' \<and> 0 < coef mp")
    case False
    from monthly_contribution_skip [OF False, of s] s1 have "s1 = s" by simp
    with st False show ?thesis by auto
  next
    case True
    from True s1 obtain c1 yc tc where
      "dec_add (current_amount s) mp = Inr c1"
      and "s1 = s\<lparr>current_amount := c1, year_contributions := yc,
                   total_contributions_acc := tc\<rparr>"
      by (rule monthly_contribution_add)
    with st True show ?thesis by (simp add: contribution_then_interest_def)
  qed
qed

lemma run_periods_steps:
  "run_periods n freq mp rate s = Inr s' \<Longrightarrow>
   repeat_step n (if freq = ''monthly'' \<and> 0 < coef mp then contribution_then_interest mp rate
                  else interest_step rate) (current_amount s) = Inr (current_amount s')"
proof (induction n arbitrary: s)
  case 0
  then show ?case by simp
next
  case (Suc n)
  from Suc.prems obtain s1 where
    s1: "period_body freq mp rate s = Inr s1" and r: "run_periods n freq mp rate s1 = Inr s'"
    by (auto simp: err_bind_Inr)
  from period_body_step [OF s1] Suc.IH [OF r] show ?case by simp
qed

lemma period_body_breakdown:
  assumes "period_body freq mp rate s = Inr s'"
  shows "breakdown_acc s' = breakdown_acc s"
proof -
  from assms obtain s1 pi c yi where
    s1: "monthly_contribution freq mp s = Inr s1"
    and "dec_mul (current_amount s1) rate = Inr pi"
    and "dec_add (current_amount s1) pi = Inr c"
    and "dec_add (year_interest s1) pi = Inr yi"
    and s': "s' = s1\<lparr>current_amount := c, year_interest := yi\<rparr>"
    by (rule period_body_Inr)
  have "breakdown_acc s1 = breakdown_acc s"
  proof (cases "freq = ''monthly'' \<and> 0 < coef mp")
    case False
    from monthly_contribution_skip [OF False, of s] s1 show ?thesis by simp
  next
    case True
    from True s1 obtain c1 yc tc where
      "s1 = s\<lparr>current_amount := c1, year_contributions := yc,
                   total_contributions_acc := tc\<rparr>"
      by (rule monthly_contribution_add)
    then show ?thesis by simp
  qed
  then show ?thesis by (simp add: s')
qed

lemma run_periods_breakdown:
  "run_periods n freq mp rate s = Inr s' \<Longrightarrow> breakdown_acc s' = breakdown_acc s"
proof (induction n arbitrary: s)
  case 0
  then show ?case by simp
next
  case (Suc n)
  from Suc.prems obtain s1 where
    s1: "period_body freq mp rate s = Inr s1" and r: "run_periods n freq mp rate s1 = Inr s'"
    by (auto simp: err_bind_Inr)
  from period_body_breakdown [OF s1] Suc.IH [OF r] show ?case by simp
qed

lemma year_body_scheduled:
  assumes p: "year_body freq mp rate (periods_per_year freq) y s = Inr s'"
    and fr: "freq \<in> set allowed_frequencies" and mp: "0 < coef mp"
  shows "scheduled_year freq mp rate (current_amount s) = Inr (current_amount s') \<and>
    (\<exists>entry. breakdown_acc s' = breakdown_acc s @ [entry] \<and>
       quantize2 (current_amount s') = Inr (end_amount entry))"
proof -
  from p obtain s1 s2 growth entry where
    s1: "run_periods (periods_per_year freq) freq mp rate
       (s\<lparr>year_contributions := Dec 0 0, year_interest := Dec 0 0\<rparr>) = Inr s1"
    and s2: "year_end_contribution freq mp s1 = Inr s2"
    and "growth_rate_of (current_amount s) (current_amount s2) = Inr growth"
    and en: "breakdown_entry y (current_amount s) (year_contributions s2) (year_interest s2)
       (current_amount s2) growth = Inr entry"
    and s': "s' = s2\<lparr>breakdown_acc := breakdown_acc s2 @ [entry]\<rparr>"
    by (rule year_body_Inr)
  from run_periods_steps [OF s1]
  have st: "repeat_step (periods_per_year freq)
      (if freq = ''monthly'' \<and> 0 < coef mp then contribution_then_interest mp rate
       else interest_step rate) (current_amount s) = Inr (current_amount s1)" by simp
  have b1: "breakdown_acc s1 = breakdown_acc s"
    using s1 by (rule run_periods_breakdown [THEN trans]) simp
  from en have q: "quantize2 (current_amount s2) = Inr (end_amount entry)"
    by (auto simp: breakdown_entry_def err_bind_Inr)
  show ?thesis
  proof (cases "freq = ''monthly''")
    case True
    from year_end_contribution_skip [of freq mp s1] s2 True have e: "s2 = s1" by simp
    from st True mp have "scheduled_year freq mp rate (current_amount s) = Inr (current_amount s1)"
      by (simp add: scheduled_year_def periods_per_year_def)
    with q b1 show ?thesis by (simp add: s' e)
  next
    case False
    with fr have qy: "freq \<in> set [''quarterly'', ''yearly'']"
      by (simp add: allowed_frequencies_def)
    with mp s2 obtain ac c yc tc where
      ac: "dec_mul mp (Dec 12 0) = Inr ac"
      and c: "dec_add (current_amount s1) ac = Inr c"
      and "dec_add (year_contributions s1) ac = Inr yc"
      and "dec_add (total_contributions_acc s1) ac = Inr tc"
      and e: "s2 = s1\<lparr>current_amount := c, year_contributions := yc,
                   total_contributions_acc := tc\<rparr>"
      using year_end_contribution_add [of freq mp s1 s2] by blast
    from st False ac c
    have "scheduled_year freq mp rate (current_amount s) = Inr (current_amount s2)"
      by (simp add: scheduled_year_def periods_per_year_def e)
    with q b1 show ?thesis by (simp add: s' e)
  qed
qed


lemma run_years_scheduled:
  assumes fr: "freq \<in> set allowed_frequencies" and mp: "0 < coef mp"
  shows "run_years freq mp rate (periods_per_year freq) ys s = Inr s' \<Longrightarrow>
    \<exists>balances entries.
      scheduled_balances (length ys) freq mp rate (current_amount s) = Inr balances \<and>
      breakdown_acc s' = breakdown_acc s @ entries \<and>
      map quantize2 balances = map (\<lambda>e. Inr (end_amount e)) entries \<and>
      current_amount s' = last (current_amount s # balances)"
proof (induction ys arbitrary: s)
  case Nil
  then show ?case by simp
next
  case (Cons y ys)
  from Cons.prems obtain s1 where
    s1: "year_body freq mp rate (periods_per_year freq) y s = Inr s1"
    and r: "run_years freq mp rate (periods_per_year freq) ys s1 = Inr s'"
    by (auto simp: err_bind_Inr)
  from year_body_scheduled [OF s1 fr mp] obtain entry where
    y1: "scheduled_year freq mp rate (current_amount s) = Inr (current_amount s1)"
    and b1: "breakdown_acc s1 = breakdown_acc s @ [entry]"
    and q1: "quantize2 (current_amount s1) = Inr (end_amount entry)" by blast
  from Cons.IH [OF r] obtain balances entries where
    sb: "scheduled_balances (length ys) freq mp rate (current_amount s1) = Inr balances"
    and b: "breakdown_acc s' = breakdown_acc s1 @ entries"
    and q: "map quantize2 balances = map (\<lambda>e. Inr (end_amount e)) entries"
    and l: "current_amount s' = last (current_amount s1 # balances)" by blast
  show ?case
  proof (intro exI conjI)
    show "scheduled_balances (length (y # ys)) freq mp rate (current_amount s)
        = Inr (current_amount s1 # balances)"
      using y1 sb by simp
    show "breakdown_acc s' = breakdown_acc s @ (entry # entries)" using b b1 by simp
    show "map quantize2 (current_amount s1 # balances)
        = map (\<lambda>e. Inr (end_amount e)) (entry # entries)" using q q1 by simp
    show "current_amount s' = last (current_amount s # current_amount s1 # balances)"
      using l by simp
  qed
qed

lemma monthly_example_result:
  "calculate_compound_interest pow_one clock_a monthly_example =
     Inr \<lparr>final_amount = Dec 1767291 (- 2), total_contributions = Dec 1600000 (- 2),
          total_interest = Dec 167291 (- 2), annual_return = Dec 1046 (- 2),
          yearly_breakdown =
            [\<lparr>year = 1, start_amount = Dec 1000000 (- 2), contributions = Dec 600000 (- 2),
              interest = Dec 167291 (- 2), end_amount = Dec 1767291 (- 2),
              growth_rate = Dec 7673 (- 2)\<rparr>],
          calculation_time = clock_a\<rparr>"
  by code_simp

lemma yearly_schedule_example:
  "dec_div (Dec 40 (- 1)) (Dec 100 0) = Inr (Dec 4 (- 2)) \<and>
   scheduled_balances 1 ''yearly'' (Dec 5000 (- 1)) (Dec 4 (- 2)) (Dec 100000 (- 1))
     = Inr [Dec 16400000 (- 3)] \<and>
   quantize2 (Dec 16400000 (- 3)) = Inr (Dec 1640000 (- 2))"
  by code_simp

text \<open>
  Claim C2. For every request with a positive monthly payment and one of the three
  frequencies, whenever \<open>calculate_compound_interest\<close> returns a response, the balance
  follows the schedule: under monthly compounding each of the twelve periods of a year
  adds the payment to the current amount and then accrues that period's interest on
  the amount that includes it; under quarterly or yearly compounding the year's periods
  accrue interest on the amount alone and \<open>monthly_payment * 12\<close> is added once, after
  the last period. The \<open>end_amount\<close> of every year of the breakdown is the scheduled
  balance of that year rounded to cents, and \<open>final_amount\<close> is the last one.
\<close>

theorem contribution_timing:
  assumes mp: "0 < val (monthly_payment request)"
    and fr: "compound_frequency request \<in> set allowed_frequencies"
    and res: "calculate_compound_interest pw now request = Inr response"
  shows "\<exists>annual rate balances.
    dec_div (annual_rate request) (Dec 100 0) = Inr annual \<and>
    rate_per_period (compound_frequency request) annual = Inr rate \<and>
    scheduled_balances (nat (years request)) (compound_frequency request)
      (monthly_payment request) rate (principal request) = Inr balances \<and>
    map quantize2 balances = map (\<lambda>e. Inr (end_amount e)) (yearly_breakdown response) \<and>
    quantize2 (last (principal request # balances)) = Inr (final_amount response)"
proof -
  from res obtain a rt s ti ar where
    a: "dec_div (annual_rate request) (Dec 100 0) = Inr a"
    and rt: "rate_per_period (compound_frequency request) a = Inr rt"
    and run: "run_years (compound_frequency request) (monthly_payment request) rt
       (periods_per_year (compound_frequency request)) [1 .. years request]
       (initial_state request) = Inr s"
    and "dec_sub (current_amount s) (total_contributions_acc s) = Inr ti"
    and "annual_return_of pw (current_amount s) (total_contributions_acc s) (years request)
           = Inr ar"
    and qf: "quantize2 (current_amount s) = Inr (final_amount response)"
    and "quantize2 (total_contributions_acc s) = Inr (total_contributions response)"
    and "quantize2 ti = Inr (total_interest response)"
    and "quantize2 ar = Inr (annual_return response)"
    and yb: "yearly_breakdown response = breakdown_acc s"
    and "calculation_time response = now"
    by (rule calculate_Inr_elim)
  from mp have mp': "0 < coef (monthly_payment request)"
    using val_nonneg_iff [of "monthly_payment request"] val_eq_0_iff [of "monthly_payment request"]
    by linarith
  have len: "length [1 .. years request] = nat (years request)" by simp
  from run_years_scheduled [OF fr mp' run] obtain balances entries where
    "scheduled_balances (nat (years request)) (compound_frequency request)
      (monthly_payment request) rt (current_amount (initial_state request)) = Inr balances"
    "breakdown_acc s = breakdown_acc (initial_state request) @ entries"
    "map quantize2 balances = map (\<lambda>e. Inr (end_amount e)) entries"
    "current_amount s = last (current_amount (initial_state request) # balances)"
    unfolding len by blast
  with a rt qf yb show ?thesis by (auto simp: initial_state_def)
qed

theorem contribution_timing_witness:
  "0 < val (monthly_payment yearly_example) \<and>
   compound_frequency yearly_example \<in> set allowed_frequencies \<and>
   (\<exists>annual rate balances.
      dec_div (annual_rate yearly_example) (Dec 100 0) = Inr annual \<and>
      rate_per_period (compound_frequency yearly_example) annual = Inr rate \<and>
      scheduled_balances (nat (years yearly_example)) (compound_frequency yearly_example)
        (monthly_payment yearly_example) rate (principal yearly_example) = Inr balances \<and>
      map quantize2 balances = [Inr (Dec 1640000 (- 2))] \<and>
      quantize2 (last (principal yearly_example # balances)) = Inr (Dec 1640000 (- 2))) \<and>
   dec_div (Dec 40 (- 1)) (Dec 100 0) = Inr (Dec 4 (- 2)) \<and>
   scheduled_balances 1 ''yearly'' (Dec 5000 (- 1)) (Dec 4 (- 2)) (Dec 100000 (- 1))
     = Inr [Dec 16400000 (- 3)] \<and>
   quantize2 (Dec 16400000 (- 3)) = Inr (Dec 1640000 (- 2)) \<and>
   0 < val (monthly_payment monthly_example) \<and>
   compound_frequency monthly_example \<in> set allowed_frequencies \<and>
   (\<exists>annual rate balances.
      dec_div (annual_rate monthly_example) (Dec 100 0) = Inr annual \<and>
      rate_per_period (compound_frequency monthly_example) annual = Inr rate \<and>
      scheduled_balances (nat (years monthly_example)) (compound_frequency monthly_example)
        (monthly_payment monthly_example) rate (principal monthly_example) = Inr balances \<and>
      map quantize2 balances = [Inr (Dec 1767291 (- 2))] \<and>
      quantize2 (last (principal monthly_example # balances)) = Inr (Dec 1767291 (- 2)))"
proof -
  have y: "0 < val (monthly_payment yearly_example)"
    "compound_frequency yearly_example \<in> set allowed_frequencies"
    by (simp_all add: yearly_example_def val_Dec_simps allowed_frequencies_def)
  have m: "0 < val (monthly_payment monthly_example)"
    "compound_frequency monthly_example \<in> set allowed_frequencies"
    by (simp_all add: monthly_example_def yearly_example_def val_Dec_simps
        allowed_frequencies_def)
  from contribution_timing [OF y yearly_example_result]
  have 1: "\<exists>annual rate balances.
      dec_div (annual_rate yearly_example) (Dec 100 0) = Inr annual \<and>
      rate_per_period (compound_frequency yearly_example) annual = Inr rate \<and>
      scheduled_balances (nat (years yearly_example)) (compound_frequency yearly_example)
        (monthly_payment yearly_example) rate (principal yearly_example) = Inr balances \<and>
      map quantize2 balances = [Inr (Dec 1640000 (- 2))] \<and>
      quantize2 (last (principal yearly_example # balances)) = Inr (Dec 1640000 (- 2))"
    by simp
  from contribution_timing [OF m monthly_example_result]
  have 2: "\<exists>annual rate balances.
      dec_div (annual_rate monthly_example) (Dec 100 0) = Inr annual \<and>
      rate_per_period (compound_frequency monthly_example) annual = Inr rate \<and>
      scheduled_balances (nat (years monthly_example)) (compound_frequency monthly_example)
        (monthly_payment monthly_example) rate (principal monthly_example) = Inr balances \<and>
      map quantize2 balances = [Inr (Dec 1767291 (- 2))] \<and>
      quantize2 (last (principal monthly_example # balances)) = Inr (Dec 1767291 (- 2))"
    by simp
  from y 1 yearly_schedule_example m 2 show ?thesis by (intro conjI) simp_all
qed

section \<open>The calculation on invalid input\<close>











section \<open>Consecutive calls\<close>




end
